theory Spec2Isabelle
  imports Complex_Main "HOL-Library.Monad_Syntax"
begin

section \<open>The data model of Matrix.cpp\<close>

text \<open>
  The class \<open>Matrix\<close> derives from \<open>vector< vector<double> >\<close> and adds the two
  counters \<open>nrows_\<close> and \<open>ncols_\<close>. In the arithmetic of the operators, of \<open>inverse\<close> and of
  the copies a \<open>double\<close> is idealised as a real number; \<open>checkDominant\<close>, whose result is a
  decision on rounded sums, runs on the same class with cells of the type \<open>double\<close> below
  (the record \<open>Matrix_d\<close>), with infinities, NaN and rounding. A \<open>size_t\<close> is a natural
  number below \<open>2 ^ 64\<close> and an \<open>int\<close> has 32 bits; where the code subtracts, adds or
  multiplies \<open>size_t\<close> values or converts between the two, the wrap-around is written out. The OpenMP pragmas are not compiled (\<open>_OPENMP\<close>
  undefined), so every loop runs sequentially in source order.

  Every \<open>throw runtime_error\<close> of the source is a value of \<open>error\<close>, named after the
  failure its message reports: \<open>ShapeMismatch\<close> for "Matrix should be square!" and
  "Matrices do not have the correct shape.", \<open>SingularMatrix\<close> for "0 occurs ..." and
  "... occurs during inverse.", \<open>MalformedInput\<close> for the three messages of the flat-buffer
  conversions. An unchecked \<open>operator[]\<close> or pointer access outside its container is the
  extra value \<open>OutOfBounds\<close>.
\<close>

datatype error = ShapeMismatch | SingularMatrix | MalformedInput | OutOfBounds

text \<open>
  Modelled from the spec: the header \<open>Matrix.h\<close> with the class declaration is missing.
  The fields are the ones Matrix.cpp uses: the inherited vector of rows and the two counters
  \<open>nrows_\<close> and \<open>ncols_\<close>, here under the names of their accessors \<open>nrows()\<close> and \<open>ncols()\<close>.
\<close>

record Matrix =
  rows :: "real list list"
  nrows :: nat
  ncols :: nat

text \<open>
  Modelled from the spec: \<open>struct continuousMatrix\<close> is declared in the missing header too.
  Section 3 of the specification gives its fields: \<open>nrows\<close>, \<open>ncols\<close>,
  \<open>length = nrows * ncols\<close> and the flat buffer \<open>data\<close>. The three counters are taken
  as \<open>size_t\<close>, the type of the values \<open>nrows()\<close> and \<open>ncols()\<close> assigned to them.
\<close>

record continuousMatrix =
  cm_nrows :: nat
  cm_ncols :: nat
  cm_length :: nat
  cm_data :: "real list"

text \<open>The state of a default-constructed object: an empty vector (\<open>Matrix::Matrix()\<close>).\<close>

definition Matrix0 :: Matrix where
  "Matrix0 = \<lparr>rows = [], nrows = 0, ncols = 0\<rparr>"

text \<open>The class invariant of section 3 of the specification, with the range of \<open>size_t\<close>.\<close>

definition wf :: "Matrix \<Rightarrow> bool" where
  "wf m \<longleftrightarrow> length (rows m) = nrows m \<and> list_all (\<lambda>r. length r = ncols m) (rows m)
     \<and> nrows m < 2 ^ 64 \<and> ncols m < 2 ^ 64"

text \<open>\<open>std::vector::resize(n, v)\<close>: the first \<open>n\<close> elements are kept, new ones are \<open>v\<close>.\<close>

definition vresize :: "nat \<Rightarrow> 'a \<Rightarrow> 'a list \<Rightarrow> 'a list" where
  "vresize n v xs = take n xs @ replicate (n - length xs) v"

text \<open>\<open>Matrix::resize\<close>: the outer vector is resized with empty rows, then every row with 0.\<close>

definition resize :: "Matrix \<Rightarrow> nat \<Rightarrow> nat \<Rightarrow> Matrix" where
  "resize m r c =
     \<lparr>rows = map (vresize c 0) (vresize r [] (rows m)), nrows = r, ncols = c\<rparr>"

text \<open>\<open>Matrix::Matrix(size_t nrows, size_t ncols)\<close> and \<open>Matrix::Matrix(size_t nsize)\<close>.\<close>

definition Matrix2 :: "nat \<Rightarrow> nat \<Rightarrow> Matrix" where
  "Matrix2 r c = resize Matrix0 r c"

definition Matrix1 :: "nat \<Rightarrow> Matrix" where
  "Matrix1 nsize = resize Matrix0 nsize nsize"

text \<open>The unchecked element accesses \<open>m[i][j]\<close> (read) and \<open>m[i][j] = v\<close> (write).\<close>

definition cell :: "Matrix \<Rightarrow> nat \<Rightarrow> nat \<Rightarrow> real option" where
  "cell m i j = (if i < length (rows m) \<and> j < length (rows m ! i)
                 then Some (rows m ! i ! j) else None)"

definition put :: "Matrix \<Rightarrow> nat \<Rightarrow> nat \<Rightarrow> real \<Rightarrow> Matrix option" where
  "put m i j v = (if i < length (rows m) \<and> j < length (rows m ! i)
                  then Some (m\<lparr>rows := (rows m)[i := (rows m ! i)[j := v]]\<rparr>) else None)"

subsection \<open>Calls, frames and loops\<close>

text \<open>
  A call works on a frame: a record with one field for each object the function names
  (its receiver or operands, and its locals). A call either runs to its end or throws; in
  both cases the objects are still there, so both outcomes carry the final frame.
\<close>

datatype 's outcome = Done 's | Thrown error 's

definition state_of :: "'s outcome \<Rightarrow> 's" where
  "state_of r = (case r of Done s \<Rightarrow> s | Thrown e s \<Rightarrow> s)"

definition and_then :: "'s outcome \<Rightarrow> ('s \<Rightarrow> 's outcome) \<Rightarrow> 's outcome" where
  "and_then r k = (case r of Done s \<Rightarrow> k s | Thrown e s \<Rightarrow> Thrown e s)"

text \<open>A statement whose element accesses are all in range, or else the out-of-bounds value.\<close>

definition checked :: "'s \<Rightarrow> 's option \<Rightarrow> 's outcome" where
  "checked s r = (case r of Some s' \<Rightarrow> Done s' | None \<Rightarrow> Thrown OutOfBounds s)"

text \<open>
  What the caller gets: the value of the returned local, or the error thrown. (Returning a
  \<open>Matrix\<close> by value hands over the local itself or a copy made by the copy constructor,
  which is cell by cell the same matrix.)
\<close>

definition result_of :: "('s \<Rightarrow> 'a) \<Rightarrow> 's outcome \<Rightarrow> error + 'a" where
  "result_of g r = (case r of Done s \<Rightarrow> Inr (g s) | Thrown e s \<Rightarrow> Inl e)"

text \<open>
  \<open>for (size_t i = a; i < n; i++) body\<close>. The bound is read once: no loop body of the
  source assigns a counter or a local bound.
\<close>

function for_loop :: "nat \<Rightarrow> nat \<Rightarrow> (nat \<Rightarrow> 's \<Rightarrow> 's outcome) \<Rightarrow> 's \<Rightarrow> 's outcome" where
  "for_loop i n body s =
     (if i < n then (case body i s of Done s' \<Rightarrow> for_loop (Suc i) n body s'
                                    | Thrown e s' \<Rightarrow> Thrown e s')
      else Done s)"
  by pat_completeness auto
termination
  by (relation "measure (\<lambda>(i, n, body, s). n - i)") auto

declare for_loop.simps [simp del]

text \<open>
  \<open>for (int j = a; j > lo; j--) body\<close>; the loop \<open>for (int i = a; i >= 0; i--)\<close> is the
  one with \<open>lo = -1\<close>.
\<close>

function for_down :: "int \<Rightarrow> int \<Rightarrow> (int \<Rightarrow> 's \<Rightarrow> 's outcome) \<Rightarrow> 's \<Rightarrow> 's outcome" where
  "for_down j lo body s =
     (if lo < j then (case body j s of Done s' \<Rightarrow> for_down (j - 1) lo body s'
                                     | Thrown e s' \<Rightarrow> Thrown e s')
      else Done s)"
  by pat_completeness auto
termination
  by (relation "measure (\<lambda>(j, lo, body, s). nat (j - lo))") auto

declare for_down.simps [simp del]

text \<open>Subtraction of two \<open>size_t\<close> values, and the conversion of a \<open>size_t\<close> to a 32-bit \<open>int\<close>.\<close>

definition size_sub :: "nat \<Rightarrow> nat \<Rightarrow> nat" where
  "size_sub a b = (a + 2 ^ 64 - b mod 2 ^ 64) mod 2 ^ 64"

definition to_int :: "nat \<Rightarrow> int" where
  "to_int x = (let r = int (x mod 2 ^ 32) in if r < 2 ^ 31 then r else r - 2 ^ 32)"

subsection \<open>\<open>Matrix::operator=\<close> and the copy constructor\<close>

record operands =
  lhs :: Matrix
  rhs :: Matrix

text \<open>
  In \<open>operator=\<close> the receiver \<open>*this\<close> is the left operand \<open>lhs\<close> of the assignment.
  The branch \<open>this != &rhs\<close> is the one modelled: the copy constructor, the only caller in
  Matrix.cpp, assigns to the object under construction.
\<close>

definition assign_body :: "nat \<Rightarrow> nat \<Rightarrow> operands \<Rightarrow> operands outcome" where
  "assign_body i j f = checked f (do {
     v \<leftarrow> cell (rhs f) i j;
     m' \<leftarrow> put (lhs f) i j v;
     Some (f\<lparr>lhs := m'\<rparr>) })"

definition assign_row :: "nat \<Rightarrow> operands \<Rightarrow> operands outcome" where
  "assign_row i f =
     and_then
       (checked f (if i < length (rows (lhs f))
          then Some (f\<lparr>lhs := (lhs f)\<lparr>rows :=
                 (rows (lhs f))[i := vresize (ncols (lhs f)) 0 (rows (lhs f) ! i)]\<rparr>\<rparr>)
          else None))
       (\<lambda>f. for_loop 0 (ncols (lhs f)) (assign_body i) f)"

definition assign_run :: "operands \<Rightarrow> operands outcome" where
  "assign_run f0 =
     (let f = f0\<lparr>lhs := (lhs f0)\<lparr>nrows := nrows (rhs f0), ncols := ncols (rhs f0)\<rparr>\<rparr>;
          f = f\<lparr>lhs := (lhs f)\<lparr>rows := vresize (nrows (lhs f)) [] (rows (lhs f))\<rparr>\<rparr>
      in for_loop 0 (nrows (lhs f)) assign_row f)"

text \<open>\<open>Matrix::Matrix(const Matrix& orig)\<close>: \<open>*this = orig\<close> on a new object.\<close>

definition Matrix_copy :: "Matrix \<Rightarrow> error + Matrix" where
  "Matrix_copy orig = result_of lhs (assign_run \<lparr>lhs = Matrix0, rhs = orig\<rparr>)"

subsection \<open>The arithmetic of \<open>double\<close>\<close>

text \<open>
  A \<open>double\<close> is a real number of the format, an infinity or NaN. (The sign of a zero is
  left out: no operation below tells \<open>-0.0\<close> from \<open>0.0\<close>.)
\<close>

datatype double = Finite real | PlusInf | MinusInf | NaN

text \<open>
  The format itself is a parameter: \<open>rnd\<close> rounds an exact result to a value of the
  format, as if the exponent had no upper bound, and \<open>dmax\<close> is the largest finite value.
  A rounded result beyond \<open>dmax\<close> overflows to an infinity.
\<close>

record format =
  rnd :: "real \<Rightarrow> real"
  dmax :: real

definition fl :: "format \<Rightarrow> real \<Rightarrow> double" where
  "fl F z = (let y = rnd F z
             in if dmax F < y then PlusInf else if y < - dmax F then MinusInf else Finite y)"

text \<open>\<open>abs(x)\<close> and \<open>-x\<close> are exact.\<close>

fun d_abs :: "double \<Rightarrow> double" where
  "d_abs (Finite x) = Finite \<bar>x\<bar>"
| "d_abs PlusInf = PlusInf"
| "d_abs MinusInf = PlusInf"
| "d_abs NaN = NaN"

fun d_neg :: "double \<Rightarrow> double" where
  "d_neg (Finite x) = Finite (- x)"
| "d_neg PlusInf = MinusInf"
| "d_neg MinusInf = PlusInf"
| "d_neg NaN = NaN"

text \<open>
  \<open>x + y\<close>: NaN if an operand is NaN or the operands are infinities of opposite sign, an
  infinite operand otherwise, and the rounded sum of two finite operands. \<open>x - y\<close> is
  \<open>x + (-y)\<close>.
\<close>

fun d_add :: "format \<Rightarrow> double \<Rightarrow> double \<Rightarrow> double" where
  "d_add F NaN b = NaN"
| "d_add F a NaN = NaN"
| "d_add F (Finite x) (Finite y) = fl F (x + y)"
| "d_add F PlusInf MinusInf = NaN"
| "d_add F MinusInf PlusInf = NaN"
| "d_add F PlusInf b = PlusInf"
| "d_add F a PlusInf = PlusInf"
| "d_add F MinusInf b = MinusInf"
| "d_add F a MinusInf = MinusInf"

definition d_sub :: "format \<Rightarrow> double \<Rightarrow> double \<Rightarrow> double" where
  "d_sub F a b = d_add F a (d_neg b)"

text \<open>
  \<open>x < y\<close> and \<open>x >= y\<close>: both are false when an operand is NaN; on the other values,
  which are totally ordered, \<open>x >= y\<close> is the negation of \<open>x < y\<close>.
\<close>

fun d_less :: "double \<Rightarrow> double \<Rightarrow> bool" where
  "d_less (Finite x) (Finite y) = (x < y)"
| "d_less (Finite x) PlusInf = True"
| "d_less MinusInf (Finite y) = True"
| "d_less MinusInf PlusInf = True"
| "d_less a b = False"

definition d_ge :: "double \<Rightarrow> double \<Rightarrow> bool" where
  "d_ge a b \<longleftrightarrow> a \<noteq> NaN \<and> b \<noteq> NaN \<and> \<not> d_less a b"

subsection \<open>\<open>Matrix::checkDominant\<close>\<close>

text \<open>
  The class once more, its cells of the type \<open>double\<close>, and its invariant. The method reads
  \<open>nrows_\<close> and the vector.
\<close>

record Matrix_d =
  rows_d :: "double list list"
  nrows_d :: nat
  ncols_d :: nat

definition wf_d :: "Matrix_d \<Rightarrow> bool" where
  "wf_d m \<longleftrightarrow> length (rows_d m) = nrows_d m \<and>
     list_all (\<lambda>r. length r = ncols_d m) (rows_d m) \<and> nrows_d m < 2 ^ 64 \<and> ncols_d m < 2 ^ 64"

text \<open>\<open>accumulate(row.begin(), row.end(), 0.0, [](lhs, rhs) { return abs(lhs) + abs(rhs); })\<close>\<close>

definition accumulate_abs :: "format \<Rightarrow> double list \<Rightarrow> double" where
  "accumulate_abs F row = foldl (\<lambda>lhs rhs. d_add F (d_abs lhs) (d_abs rhs)) (Finite 0) row"

text \<open>
  The loop of the \<open>const\<close> method, from row \<open>i\<close> on; it returns at the first row with
  \<open>(*this)[i][i] < sum - (*this)[i][i]\<close>.
\<close>

function checkDominant_from :: "format \<Rightarrow> nat \<Rightarrow> Matrix_d \<Rightarrow> error + bool" where
  "checkDominant_from F i m =
     (if i < nrows_d m then
        (if i < length (rows_d m) then
           (let sum_v = accumulate_abs F (rows_d m ! i)
            in if i < length (rows_d m ! i) then
                 (if d_less (rows_d m ! i ! i) (d_sub F sum_v (rows_d m ! i ! i)) then Inr False
                  else checkDominant_from F (Suc i) m)
               else Inl OutOfBounds)
         else Inl OutOfBounds)
      else Inr True)"
  by pat_completeness auto
termination
  by (relation "measure (\<lambda>(F, i, m). nrows_d m - i)") auto

declare checkDominant_from.simps [simp del]

definition checkDominant :: "format \<Rightarrow> Matrix_d \<Rightarrow> error + bool" where
  "checkDominant F m = checkDominant_from F 0 m"

subsection \<open>\<open>Matrix::transpose\<close>\<close>

record receiver =
  this :: Matrix

record transpose_frame = receiver +
  mat_t :: Matrix

definition transpose_body :: "nat \<Rightarrow> nat \<Rightarrow> transpose_frame \<Rightarrow> transpose_frame outcome" where
  "transpose_body i j f = checked f (do {
     v \<leftarrow> cell (this f) i j;
     m' \<leftarrow> put (mat_t f) j i v;
     Some (f\<lparr>mat_t := m'\<rparr>) })"

definition transpose_run :: "Matrix \<Rightarrow> transpose_frame outcome" where
  "transpose_run m =
     (let f = \<lparr>this = m, mat_t = Matrix2 (ncols m) (nrows m)\<rparr>
      in for_loop 0 (nrows (this f))
           (\<lambda>i. for_loop 0 (ncols (this f)) (transpose_body i)) f)"

definition transpose_m :: "Matrix \<Rightarrow> error + Matrix" where
  "transpose_m m = result_of mat_t (transpose_run m)"

subsection \<open>The arithmetic operators\<close>

record add_frame = operands +
  mat_add :: Matrix

record minus_frame = operands +
  mat_minus :: Matrix

record mul_frame = operands +
  mat_mul :: Matrix
  sum_v :: real

definition add_body :: "nat \<Rightarrow> nat \<Rightarrow> add_frame \<Rightarrow> add_frame outcome" where
  "add_body i j f = checked f (do {
     a \<leftarrow> cell (lhs f) i j;
     b \<leftarrow> cell (rhs f) i j;
     m' \<leftarrow> put (mat_add f) i j (a + b);
     Some (f\<lparr>mat_add := m'\<rparr>) })"

text \<open>\<open>operator+\<close>: the frame after the call.\<close>

definition add_run :: "Matrix \<Rightarrow> Matrix \<Rightarrow> add_frame outcome" where
  "add_run l r =
     (let f = \<lparr>lhs = l, rhs = r, mat_add = Matrix2 0 0\<rparr>
      in if ncols (lhs f) \<noteq> ncols (rhs f) \<or> nrows (lhs f) \<noteq> nrows (rhs f)
         then Thrown ShapeMismatch f
         else let f = f\<lparr>mat_add := resize (mat_add f) (nrows (lhs f)) (ncols (lhs f))\<rparr>
              in for_loop 0 (nrows (lhs f))
                   (\<lambda>i. for_loop 0 (ncols (lhs f)) (add_body i)) f)"

definition op_add :: "Matrix \<Rightarrow> Matrix \<Rightarrow> error + Matrix" where
  "op_add l r = result_of mat_add (add_run l r)"

definition minus_body :: "nat \<Rightarrow> nat \<Rightarrow> minus_frame \<Rightarrow> minus_frame outcome" where
  "minus_body i j f = checked f (do {
     a \<leftarrow> cell (lhs f) i j;
     b \<leftarrow> cell (rhs f) i j;
     m' \<leftarrow> put (mat_minus f) i j (a - b);
     Some (f\<lparr>mat_minus := m'\<rparr>) })"

text \<open>\<open>operator-\<close>: the frame after the call.\<close>

definition minus_run :: "Matrix \<Rightarrow> Matrix \<Rightarrow> minus_frame outcome" where
  "minus_run l r =
     (let f = \<lparr>lhs = l, rhs = r, mat_minus = Matrix2 0 0\<rparr>
      in if ncols (lhs f) \<noteq> ncols (rhs f) \<or> nrows (lhs f) \<noteq> nrows (rhs f)
         then Thrown ShapeMismatch f
         else let f = f\<lparr>mat_minus := resize (mat_minus f) (nrows (lhs f)) (ncols (lhs f))\<rparr>
              in for_loop 0 (nrows (lhs f))
                   (\<lambda>i. for_loop 0 (ncols (lhs f)) (minus_body i)) f)"

definition op_sub :: "Matrix \<Rightarrow> Matrix \<Rightarrow> error + Matrix" where
  "op_sub l r = result_of mat_minus (minus_run l r)"

text \<open>\<open>sum += lhs[i][k] * rhs[k][j]\<close>\<close>

definition mul_k :: "nat \<Rightarrow> nat \<Rightarrow> nat \<Rightarrow> mul_frame \<Rightarrow> mul_frame outcome" where
  "mul_k i j k f = checked f (do {
     a \<leftarrow> cell (lhs f) i k;
     b \<leftarrow> cell (rhs f) k j;
     Some (f\<lparr>sum_v := sum_v f + a * b\<rparr>) })"

text \<open>\<open>double sum = 0.0; for (k ...) ...; mat_mul[i][j] = sum;\<close>\<close>

definition mul_j :: "nat \<Rightarrow> nat \<Rightarrow> nat \<Rightarrow> mul_frame \<Rightarrow> mul_frame outcome" where
  "mul_j mid i j f =
     and_then (for_loop 0 mid (mul_k i j) (f\<lparr>sum_v := 0\<rparr>))
       (\<lambda>f. checked f (do {
          m' \<leftarrow> put (mat_mul f) i j (sum_v f);
          Some (f\<lparr>mat_mul := m'\<rparr>) }))"

text \<open>\<open>operator*\<close>: the frame after the call.\<close>

definition mul_run :: "Matrix \<Rightarrow> Matrix \<Rightarrow> mul_frame outcome" where
  "mul_run l r =
     (let f = \<lparr>lhs = l, rhs = r, mat_mul = Matrix2 0 0, sum_v = 0\<rparr>
      in if ncols (lhs f) \<noteq> nrows (rhs f)
         then Thrown ShapeMismatch f
         else let mid = ncols (lhs f);
                  nr = nrows (lhs f);
                  nc = ncols (rhs f);
                  f = f\<lparr>mat_mul := resize (mat_mul f) nr nc\<rparr>
              in for_loop 0 nr (\<lambda>i. for_loop 0 nc (mul_j mid i)) f)"

definition op_mul :: "Matrix \<Rightarrow> Matrix \<Rightarrow> error + Matrix" where
  "op_mul l r = result_of mat_mul (mul_run l r)"

subsection \<open>\<open>Matrix::inverse\<close>\<close>

record inverse_frame = receiver +
  mat_inv :: Matrix
  mat :: Matrix

text \<open>\<open>static const double _ZERO_LIMIT = 1.0e-9;\<close>\<close>

definition ZERO_LIMIT :: real where
  "ZERO_LIMIT = 1 / 10 ^ 9"

text \<open>\<open>Matrix mat_inv(nsize), mat(*this);\<close> and the loop that sets the diagonal to 1.\<close>

definition identity_body :: "nat \<Rightarrow> inverse_frame \<Rightarrow> inverse_frame outcome" where
  "identity_body i f = checked f (do {
     m' \<leftarrow> put (mat_inv f) i i 1;
     Some (f\<lparr>mat_inv := m'\<rparr>) })"

definition inverse_init :: "nat \<Rightarrow> inverse_frame \<Rightarrow> inverse_frame outcome" where
  "inverse_init nsize f =
     (let f = f\<lparr>mat_inv := Matrix1 nsize\<rparr>
      in case Matrix_copy (this f) of
           Inl e \<Rightarrow> Thrown e f
         | Inr c \<Rightarrow> for_loop 0 nsize identity_body (f\<lparr>mat := c\<rparr>))"

text \<open>Forward elimination: \<open>mat[i][j] -= mat[k][j] * coef\<close>, then the same on \<open>mat_inv\<close>.\<close>

definition forward_j1 :: "nat \<Rightarrow> nat \<Rightarrow> real \<Rightarrow> nat \<Rightarrow> inverse_frame \<Rightarrow> inverse_frame outcome" where
  "forward_j1 k i coef j f = checked f (do {
     a \<leftarrow> cell (mat f) i j;
     b \<leftarrow> cell (mat f) k j;
     m' \<leftarrow> put (mat f) i j (a - b * coef);
     Some (f\<lparr>mat := m'\<rparr>) })"

definition forward_j2 :: "nat \<Rightarrow> nat \<Rightarrow> real \<Rightarrow> nat \<Rightarrow> inverse_frame \<Rightarrow> inverse_frame outcome" where
  "forward_j2 k i coef j f = checked f (do {
     a \<leftarrow> cell (mat_inv f) i j;
     b \<leftarrow> cell (mat_inv f) k j;
     m' \<leftarrow> put (mat_inv f) i j (a - b * coef);
     Some (f\<lparr>mat_inv := m'\<rparr>) })"

definition forward_i :: "nat \<Rightarrow> nat \<Rightarrow> nat \<Rightarrow> inverse_frame \<Rightarrow> inverse_frame outcome" where
  "forward_i nsize k i f =
     (case do { a \<leftarrow> cell (mat f) i k; b \<leftarrow> cell (mat f) k k; Some (a / b) } of
        None \<Rightarrow> Thrown OutOfBounds f
      | Some coef \<Rightarrow>
          and_then (for_loop k nsize (forward_j1 k i coef) f)
            (for_loop 0 nsize (forward_j2 k i coef)))"

definition forward_k :: "nat \<Rightarrow> nat \<Rightarrow> inverse_frame \<Rightarrow> inverse_frame outcome" where
  "forward_k nsize k f =
     (case cell (mat f) k k of
        None \<Rightarrow> Thrown OutOfBounds f
      | Some p \<Rightarrow>
          if \<bar>p\<bar> < ZERO_LIMIT then Thrown SingularMatrix f
          else for_loop (k + 1) nsize (forward_i nsize k) f)"

text \<open>The forward loop up to (not including) the pivot index \<open>bound\<close>.\<close>

definition forward :: "nat \<Rightarrow> nat \<Rightarrow> inverse_frame \<Rightarrow> inverse_frame outcome" where
  "forward nsize bound f = for_loop 0 bound (forward_k nsize) f"

text \<open>Normalization: \<open>mat[i][j] /= coef\<close>, then the same on \<open>mat_inv\<close>.\<close>

definition normalize_j1 :: "nat \<Rightarrow> real \<Rightarrow> nat \<Rightarrow> inverse_frame \<Rightarrow> inverse_frame outcome" where
  "normalize_j1 i coef j f = checked f (do {
     a \<leftarrow> cell (mat f) i j;
     m' \<leftarrow> put (mat f) i j (a / coef);
     Some (f\<lparr>mat := m'\<rparr>) })"

definition normalize_j2 :: "nat \<Rightarrow> real \<Rightarrow> nat \<Rightarrow> inverse_frame \<Rightarrow> inverse_frame outcome" where
  "normalize_j2 i coef j f = checked f (do {
     a \<leftarrow> cell (mat_inv f) i j;
     m' \<leftarrow> put (mat_inv f) i j (a / coef);
     Some (f\<lparr>mat_inv := m'\<rparr>) })"

definition normalize_i :: "nat \<Rightarrow> nat \<Rightarrow> inverse_frame \<Rightarrow> inverse_frame outcome" where
  "normalize_i nsize i f =
     (case cell (mat f) i i of
        None \<Rightarrow> Thrown OutOfBounds f
      | Some p \<Rightarrow>
          if \<bar>p\<bar> < ZERO_LIMIT then Thrown SingularMatrix f
          else let coef = p
               in and_then (for_loop i nsize (normalize_j1 i coef) f)
                    (for_loop 0 nsize (normalize_j2 i coef)))"

text \<open>The normalization loop up to (not including) the row \<open>bound\<close>.\<close>

definition normalize :: "nat \<Rightarrow> nat \<Rightarrow> inverse_frame \<Rightarrow> inverse_frame outcome" where
  "normalize nsize bound f = for_loop 0 bound (normalize_i nsize) f"

text \<open>
  Backward elimination. The counters \<open>i\<close> and \<open>j\<close> are \<open>int\<close>; inside the loops they are
  not negative, so their conversion to an index is \<open>nat\<close>. The counter \<open>m\<close> runs upwards
  from 0 to \<open>nsize\<close> like a \<open>size_t\<close>.
\<close>

definition backward_m :: "int \<Rightarrow> int \<Rightarrow> nat \<Rightarrow> inverse_frame \<Rightarrow> inverse_frame outcome" where
  "backward_m i j m f = checked f (do {
     a \<leftarrow> cell (mat_inv f) (nat i) m;
     b \<leftarrow> cell (mat_inv f) (nat j) m;
     c \<leftarrow> cell (mat f) (nat i) (nat j);
     m' \<leftarrow> put (mat_inv f) (nat i) m (a - b * c);
     Some (f\<lparr>mat_inv := m'\<rparr>) })"

definition backward_j :: "nat \<Rightarrow> int \<Rightarrow> int \<Rightarrow> inverse_frame \<Rightarrow> inverse_frame outcome" where
  "backward_j nsize i j f =
     and_then (for_loop 0 nsize (backward_m i j) f)
       (\<lambda>f. checked f (do {
          a \<leftarrow> cell (mat f) (nat i) (nat j);
          b \<leftarrow> cell (mat f) (nat j) (nat j);
          m' \<leftarrow> put (mat f) (nat i) (nat j) (a - b * a);
          Some (f\<lparr>mat := m'\<rparr>) }))"

definition backward_i :: "nat \<Rightarrow> int \<Rightarrow> inverse_frame \<Rightarrow> inverse_frame outcome" where
  "backward_i nsize i f = for_down (to_int (size_sub nsize 1)) i (backward_j nsize i) f"

definition backward :: "nat \<Rightarrow> inverse_frame \<Rightarrow> inverse_frame outcome" where
  "backward nsize f = for_down (to_int (size_sub nsize 2)) (- 1) (backward_i nsize) f"

text \<open>\<open>Matrix::inverse\<close>: the frame after the call, and what the caller gets.\<close>

definition inverse_run :: "Matrix \<Rightarrow> inverse_frame outcome" where
  "inverse_run m =
     (let f = \<lparr>this = m, mat_inv = Matrix0, mat = Matrix0\<rparr>
      in if nrows (this f) \<noteq> ncols (this f) then Thrown ShapeMismatch f
         else let nsize = nrows (this f)
              in and_then (inverse_init nsize f) (\<lambda>f.
                 and_then (forward nsize (size_sub nsize 1) f) (\<lambda>f.
                 and_then (normalize nsize nsize f) (backward nsize))))"

definition inverse :: "Matrix \<Rightarrow> error + Matrix" where
  "inverse m = result_of mat_inv (inverse_run m)"

subsection \<open>The flat row-major form\<close>

text \<open>
  More of the machine integers: the sum and the product of two \<open>size_t\<close> values, and the
  conversion of an \<open>int\<close> to \<open>size_t\<close>.
\<close>

definition size_add :: "nat \<Rightarrow> nat \<Rightarrow> nat" where
  "size_add a b = (a + b) mod 2 ^ 64"

definition size_mul :: "nat \<Rightarrow> nat \<Rightarrow> nat" where
  "size_mul a b = (a * b) mod 2 ^ 64"

definition to_size :: "int \<Rightarrow> nat" where
  "to_size v = nat (v mod 2 ^ 64)"

text \<open>
  The frame of the two conversions. The counter is declared \<open>int values_copied\<close> in the
  source and is a 32-bit \<open>int\<close> here.
\<close>

record cm_frame = receiver +
  cm :: continuousMatrix
  values_copied :: int

text \<open>
  \<open>values_copied += row.size()\<close>: the \<open>int\<close> is converted to \<open>size_t\<close>, the sum is
  taken in \<open>size_t\<close> and converted back to \<open>int\<close>.
\<close>

definition advance :: "int \<Rightarrow> nat \<Rightarrow> int" where
  "advance v n = to_int (size_add (to_size v) n)"

text \<open>
  \<open>copy(row.begin(), row.end(), data + off)\<close> writes the row over the cells
  \<open>off, ..., off + row.size() - 1\<close> of the buffer, and
  \<open>copy(data + off, data + off + n, row.begin())\<close> reads \<open>n\<close> cells from there. The
  offset is the \<open>int\<close> counter; a negative one points before the buffer.
\<close>

definition copy_in :: "real list \<Rightarrow> int \<Rightarrow> real list \<Rightarrow> real list option" where
  "copy_in row off buf =
     (if 0 \<le> off \<and> nat off + length row \<le> length buf
      then Some (take (nat off) buf @ row @ drop (nat off + length row) buf) else None)"

definition copy_out :: "real list \<Rightarrow> int \<Rightarrow> nat \<Rightarrow> real list option" where
  "copy_out buf off n =
     (if 0 \<le> off \<and> nat off + n \<le> length buf then Some (take n (drop (nat off) buf)) else None)"

text \<open>
  \<open>(double *) malloc(n * sizeof(double))\<close>: the product is taken in \<open>size_t\<close>, the
  allocation is taken to succeed (the source does not test the pointer), and the cells of
  the block hold the indeterminate values \<open>garbage\<close>.
\<close>

definition malloc_doubles :: "(nat \<Rightarrow> real) \<Rightarrow> nat \<Rightarrow> real list" where
  "malloc_doubles garbage n = map garbage [0..<size_mul n 8 div 8]"

text \<open>The lambda \<open>row_copy\<close> of \<open>toContinuousMatrix\<close>, at the row with index \<open>i\<close>.\<close>

definition to_row_copy :: "nat \<Rightarrow> cm_frame \<Rightarrow> cm_frame outcome" where
  "to_row_copy i f = checked f (do {
     d \<leftarrow> copy_in (rows (this f) ! i) (values_copied f) (cm_data (cm f));
     Some (f\<lparr>cm := (cm f)\<lparr>cm_data := d\<rparr>,
             values_copied := advance (values_copied f) (length (rows (this f) ! i))\<rparr>) })"

text \<open>
  \<open>Matrix::toContinuousMatrix\<close>. In the last test \<open>values_copied != cm->length\<close> the
  \<open>int\<close> is converted to \<open>size_t\<close>.
\<close>

definition toContinuousMatrix_run :: "(nat \<Rightarrow> real) \<Rightarrow> Matrix \<Rightarrow> cm_frame outcome" where
  "toContinuousMatrix_run garbage m =
     (let f = \<lparr>this = m,
               cm = \<lparr>cm_nrows = 0, cm_ncols = 0, cm_length = 0, cm_data = []\<rparr>,
               values_copied = 0\<rparr>
      in if nrows (this f) = 0 \<or> ncols (this f) = 0 then Thrown MalformedInput f
         else let c = (cm f)\<lparr>cm_nrows := nrows (this f), cm_ncols := ncols (this f)\<rparr>;
                  c = c\<lparr>cm_length := size_mul (cm_nrows c) (cm_ncols c)\<rparr>;
                  c = c\<lparr>cm_data := malloc_doubles garbage (cm_length c)\<rparr>;
                  f = f\<lparr>cm := c, values_copied := 0\<rparr>
              in and_then (for_loop 0 (length (rows (this f))) to_row_copy f)
                   (\<lambda>f. if to_size (values_copied f) \<noteq> cm_length (cm f)
                        then Thrown MalformedInput f else Done f))"

definition toContinuousMatrix :: "(nat \<Rightarrow> real) \<Rightarrow> Matrix \<Rightarrow> error + continuousMatrix" where
  "toContinuousMatrix garbage m = result_of cm (toContinuousMatrix_run garbage m)"

text \<open>The lambda \<open>row_copy\<close> of \<open>fromContinuousMatrix\<close>, at the row with index \<open>i\<close>.\<close>

definition from_row_copy :: "nat \<Rightarrow> cm_frame \<Rightarrow> cm_frame outcome" where
  "from_row_copy i f = checked f (do {
     r \<leftarrow> copy_out (cm_data (cm f)) (values_copied f) (length (rows (this f) ! i));
     Some (f\<lparr>this := (this f)\<lparr>rows := (rows (this f))[i := r]\<rparr>,
             values_copied := advance (values_copied f) (length (rows (this f) ! i))\<rparr>) })"

text \<open>\<open>Matrix::fromContinuousMatrix\<close> on the receiver \<open>m\<close>.\<close>

definition fromContinuousMatrix_run :: "Matrix \<Rightarrow> continuousMatrix \<Rightarrow> cm_frame outcome" where
  "fromContinuousMatrix_run m c =
     (let f = \<lparr>this = m, cm = c, values_copied = 0\<rparr>
      in if cm_nrows (cm f) = 0 \<or> cm_ncols (cm f) = 0 then Thrown MalformedInput f
         else let f = f\<lparr>this := resize (this f) (cm_nrows (cm f)) (cm_ncols (cm f))\<rparr>;
                  f = f\<lparr>values_copied := 0\<rparr>
              in for_loop 0 (length (rows (this f))) from_row_copy f)"

definition fromContinuousMatrix :: "Matrix \<Rightarrow> continuousMatrix \<Rightarrow> error + Matrix" where
  "fromContinuousMatrix m c = result_of this (fromContinuousMatrix_run m c)"

section \<open>Definitions for the statements and the proofs\<close>

text \<open>
  The frame of \<open>inverse\<close> at the moment the forward loop reaches the pivot index \<open>k\<close>
  (the locals are built, the iterations \<open>0, ..., k - 1\<close> have run), and at the moment the
  normalization loop reaches the row \<open>i\<close> (the forward loop has run to its end, and the
  rows \<open>0, ..., i - 1\<close> are normalized).
\<close>

definition at_pivot :: "Matrix \<Rightarrow> nat \<Rightarrow> inverse_frame outcome" where
  "at_pivot m k =
     and_then (inverse_init (nrows m) \<lparr>this = m, mat_inv = Matrix0, mat = Matrix0\<rparr>)
       (forward (nrows m) k)"

definition at_row :: "Matrix \<Rightarrow> nat \<Rightarrow> inverse_frame outcome" where
  "at_row m i = and_then (at_pivot m (size_sub (nrows m) 1)) (normalize (nrows m) i)"

text \<open>A vector of \<open>r\<close> rows with \<open>c\<close> cells each; rows of one length \<open>c\<close>.\<close>

definition has_shape :: "Matrix \<Rightarrow> nat \<Rightarrow> nat \<Rightarrow> bool" where
  "has_shape m r c \<longleftrightarrow> length (rows m) = r \<and> (\<forall>i<r. length (rows m ! i) = c)"

definition uniform :: "nat \<Rightarrow> 'a list list \<Rightarrow> bool" where
  "uniform c xss \<longleftrightarrow> list_all (\<lambda>r. length r = c) xss"

text \<open>
  An outcome whose final state satisfies \<open>P\<close> when the call returns and \<open>Q\<close> when it
  throws, and the three sets of errors that occur.
\<close>

definition obeys :: "('s \<Rightarrow> bool) \<Rightarrow> (error \<Rightarrow> 's \<Rightarrow> bool) \<Rightarrow> 's outcome \<Rightarrow> bool" where
  "obeys P Q r = (case r of Done t \<Rightarrow> P t | Thrown e t \<Rightarrow> Q e t)"

definition oob :: "('s \<Rightarrow> bool) \<Rightarrow> error \<Rightarrow> 's \<Rightarrow> bool" where
  "oob P e t \<longleftrightarrow> P t \<and> e = OutOfBounds"

definition oob_or_singular :: "('s \<Rightarrow> bool) \<Rightarrow> error \<Rightarrow> 's \<Rightarrow> bool" where
  "oob_or_singular P e t \<longleftrightarrow> P t \<and> (e = OutOfBounds \<or> e = SingularMatrix)"

definition shape_or_oob :: "bool \<Rightarrow> ('s \<Rightarrow> bool) \<Rightarrow> error \<Rightarrow> 's \<Rightarrow> bool" where
  "shape_or_oob ok P e t \<longleftrightarrow> P t \<and> (if ok then e = OutOfBounds else e = ShapeMismatch)"

text \<open>
  The invariant of the loops of \<open>transpose\<close>: the cells of the rows above \<open>i\<close>, and those
  of row \<open>i\<close> left of column \<open>j\<close>, have been copied; the other cells of \<open>mat_t\<close> are still
  zero.
\<close>

definition tr_inv :: "Matrix \<Rightarrow> nat \<Rightarrow> nat \<Rightarrow> transpose_frame \<Rightarrow> bool" where
  "tr_inv m i j f \<longleftrightarrow> this f = m \<and> nrows (mat_t f) = ncols m \<and> ncols (mat_t f) = nrows m \<and>
     has_shape (mat_t f) (ncols m) (nrows m) \<and>
     (\<forall>a<ncols m. \<forall>b<nrows m. rows (mat_t f) ! a ! b =
        (if b < i \<or> (b = i \<and> a < j) then rows m ! b ! a else 0))"



text \<open>
  The invariants of the row loops of the two flat-form conversions: the first \<open>i\<close> rows
  are in the buffer (the rest of it is as \<open>malloc\<close> left it), and the first \<open>i\<close> rows have
  been read back.
\<close>

definition to_inv :: "(nat \<Rightarrow> real) \<Rightarrow> Matrix \<Rightarrow> nat \<Rightarrow> cm_frame \<Rightarrow> bool" where
  "to_inv garbage m i f \<longleftrightarrow>
     f = \<lparr>this = m,
          cm = \<lparr>cm_nrows = nrows m, cm_ncols = ncols m, cm_length = nrows m * ncols m,
                cm_data = concat (take i (rows m)) @
                          drop (i * ncols m) (map garbage [0..<nrows m * ncols m])\<rparr>,
          values_copied = int (i * ncols m)\<rparr>"

definition from_inv :: "continuousMatrix \<Rightarrow> nat \<Rightarrow> cm_frame \<Rightarrow> bool" where
  "from_inv c i f \<longleftrightarrow> cm f = c \<and> values_copied f = int (i * cm_ncols c) \<and>
     nrows (this f) = cm_nrows c \<and> ncols (this f) = cm_ncols c \<and>
     has_shape (this f) (cm_nrows c) (cm_ncols c) \<and>
     (\<forall>a<i. rows (this f) ! a = take (cm_ncols c) (drop (a * cm_ncols c) (cm_data c)))"

text \<open>
  The claim's own words for a row: \<open>rowAbsSum\<close> is the sum of \<open>|a[i][j]|\<close> over the row,
  taken from the left in the arithmetic of \<open>double\<close>, and the row is dominant when
  \<open>a[i][i] >= rowAbsSum - |a[i][i]|\<close>.
\<close>

definition rowAbsSum :: "format \<Rightarrow> double list \<Rightarrow> double" where
  "rowAbsSum F row = foldl (d_add F) (Finite 0) (map d_abs row)"

definition dominant_row :: "format \<Rightarrow> Matrix_d \<Rightarrow> nat \<Rightarrow> bool" where
  "dominant_row F m i \<longleftrightarrow>
     d_ge (rows_d m ! i ! i) (d_sub F (rowAbsSum F (rows_d m ! i)) (d_abs (rows_d m ! i ! i)))"

text \<open>
  What the proof asks of the format: rounding is monotone, keeps 0 and keeps every rounded
  value. The rounding to nearest of IEEE 754 is of this kind. A finite cell is a finite
  value whose magnitude the format holds.
\<close>

definition rounding :: "format \<Rightarrow> bool" where
  "rounding F \<longleftrightarrow> mono (rnd F) \<and> rnd F 0 = 0 \<and> (\<forall>z. rnd F (rnd F z) = rnd F z) \<and> 0 \<le> dmax F"

fun finite_cell :: "format \<Rightarrow> double \<Rightarrow> bool" where
  "finite_cell F (Finite x) = (rnd F \<bar>x\<bar> = \<bar>x\<bar>)"
| "finite_cell F d = False"

text \<open>An accumulated sum that is \<open>+inf\<close> or a value of the format not below \<open>b\<close>.\<close>

fun at_least :: "format \<Rightarrow> real \<Rightarrow> double \<Rightarrow> bool" where
  "at_least F b (Finite y) = (b \<le> y \<and> rnd F y = y)"
| "at_least F b PlusInf = True"
| "at_least F b d = False"

text \<open>
  A format small enough to compute with by hand: steps of \<open>1/8\<close> up to 8, steps of 1
  beyond, rounding to the nearest value, largest value 64.
\<close>

definition small_format :: format where
  "small_format =
     \<lparr>rnd = (\<lambda>z. if \<bar>z\<bar> \<le> 8 then of_int (round (z * 8)) / 8 else of_int (round z)),
      dmax = 64\<rparr>"

section \<open>Loops\<close>

lemma for_loop_stop [simp]: "n \<le> i \<Longrightarrow> for_loop i n body s = Done s"
  by (simp add: for_loop.simps)

lemma for_loop_step:
  "i < n \<Longrightarrow> for_loop i n body s = and_then (body i s) (for_loop (Suc i) n body)"
  by (subst for_loop.simps) (simp add: and_then_def split: outcome.splits)

lemma for_loop_rule:
  assumes "P a s"
    and "\<And>i t. a \<le> i \<Longrightarrow> i < n \<Longrightarrow> P i t \<Longrightarrow>
           (case body i t of Done t' \<Rightarrow> P (Suc i) t' | Thrown e t' \<Rightarrow> Q e t')"
  shows "case for_loop a n body s of Done t \<Rightarrow> P (max a n) t | Thrown e t \<Rightarrow> Q e t"
  using assms
proof (induction "n - a" arbitrary: a s)
  case 0
  then show ?case by (simp add: max_def)
next
  case (Suc d)
  then have lt: "a < n" by simp
  show ?case
  proof (cases "body a s")
    case (Done t)
    from Suc.prems(2) [of a s] lt Suc.prems(1) Done have P': "P (Suc a) t" by simp
    have "d = n - Suc a" using Suc.hyps(2) by simp
    from Suc.hyps(1) [OF this P'] Suc.prems(2)
    have "case for_loop (Suc a) n body t of Done t \<Rightarrow> P (max (Suc a) n) t | Thrown e t \<Rightarrow> Q e t"
      by simp
    moreover have "max (Suc a) n = max a n" using lt by simp
    ultimately show ?thesis using lt Done
      by (simp add: for_loop_step and_then_def split: outcome.splits)
  next
    case (Thrown e t)
    from Suc.prems(2) [of a s] lt Suc.prems(1) Thrown have "Q e t" by simp
    then show ?thesis using lt Thrown by (simp add: for_loop_step and_then_def)
  qed
qed

lemma for_loop_split:
  "a \<le> k \<Longrightarrow> k \<le> n \<Longrightarrow>
   for_loop a n body s = and_then (for_loop a k body s) (for_loop k n body)"
proof (induction "k - a" arbitrary: a s)
  case 0
  then show ?case by (simp add: and_then_def)
next
  case (Suc d)
  then have lt: "a < k" "a < n" by simp_all
  have d: "d = k - Suc a" using Suc.hyps(2) by simp
  show ?case
  proof (cases "body a s")
    case (Done t)
    from Suc.hyps(1) [OF d, of t] Suc.prems lt
    show ?thesis using Done lt by (simp add: for_loop_step and_then_def)
  next
    case (Thrown e t)
    then show ?thesis using lt by (simp add: for_loop_step and_then_def)
  qed
qed

lemma for_loop_Suc:
  "a \<le> k \<Longrightarrow> for_loop a (Suc k) body s = and_then (for_loop a k body s) (body k)"
proof -
  assume ak: "a \<le> k"
  have "for_loop k (Suc k) body = body k"
    by (rule ext) (simp add: for_loop_step and_then_def split: outcome.splits)
  with for_loop_split [of a k "Suc k" body s] ak show ?thesis by simp
qed

lemma for_loop_Thrown_iff:
  "for_loop a n body s = Thrown e t \<longleftrightarrow>
   (\<exists>k f. a \<le> k \<and> k < n \<and> for_loop a k body s = Done f \<and> body k f = Thrown e t)"
proof (induction "n - a" arbitrary: n)
  case 0
  then show ?case by simp
next
  case (Suc d)
  then obtain n' where n: "n = Suc n'" "a \<le> n'" "d = n' - a"
    by (cases n) auto
  have IH: "for_loop a n' body s = Thrown e t \<longleftrightarrow>
   (\<exists>k f. a \<le> k \<and> k < n' \<and> for_loop a k body s = Done f \<and> body k f = Thrown e t)"
    using Suc.hyps(1) [of n'] n by simp
  show ?case
  proof (cases "for_loop a n' body s")
    case (Done f)
    have "for_loop a n body s = body n' f"
      using n Done by (simp add: for_loop_Suc and_then_def)
    moreover have "\<not> (\<exists>k f. a \<le> k \<and> k < n' \<and> for_loop a k body s = Done f \<and> body k f = Thrown e t)"
      using IH Done by simp
    ultimately show ?thesis using n Done
      by (auto simp: less_Suc_eq)
  next
    case (Thrown e' t')
    have "for_loop a n body s = Thrown e' t'"
      using n Thrown by (simp add: for_loop_Suc and_then_def)
    moreover have "\<And>f. for_loop a n' body s \<noteq> Done f" using Thrown by simp
    ultimately show ?thesis using n IH Thrown
      by (auto simp: less_Suc_eq)
  qed
qed


section \<open>Shapes\<close>

lemma wf_has_shape: "wf m \<Longrightarrow> has_shape m (nrows m) (ncols m)"
  by (simp add: wf_def has_shape_def list_all_length)

lemma wf_iff: "wf m \<longleftrightarrow> has_shape m (nrows m) (ncols m) \<and> nrows m < 2 ^ 64 \<and> ncols m < 2 ^ 64"
  by (auto simp: wf_def has_shape_def list_all_length)

lemma cell_Some: "has_shape m r c \<Longrightarrow> i < r \<Longrightarrow> j < c \<Longrightarrow> cell m i j = Some (rows m ! i ! j)"
  by (simp add: has_shape_def cell_def)

lemma put_Some:
  "has_shape m r c \<Longrightarrow> i < r \<Longrightarrow> j < c \<Longrightarrow>
   put m i j v = Some (m\<lparr>rows := (rows m)[i := (rows m ! i)[j := v]]\<rparr>)"
  by (simp add: has_shape_def put_def)

lemma has_shape_upd:
  "has_shape m r c \<Longrightarrow> has_shape (m\<lparr>rows := (rows m)[i := (rows m ! i)[j := v]]\<rparr>) r c"
  by (cases "i < length (rows m)") (auto simp: has_shape_def nth_list_update)

lemma nth_upd:
  "has_shape m r c \<Longrightarrow> a < r \<Longrightarrow> b < c \<Longrightarrow>
   (rows m)[i := (rows m ! i)[j := v]] ! a ! b = (if a = i \<and> b = j then v else rows m ! a ! b)"
  by (cases "i < length (rows m)") (auto simp: has_shape_def nth_list_update)

lemma length_vresize: "length (vresize n v xs) = n"
  by (simp add: vresize_def)

lemma nth_vresize:
  "i < n \<Longrightarrow> vresize n v xs ! i = (if i < length xs then xs ! i else v)"
  by (simp add: vresize_def nth_append)

lemma has_shape_resize: "has_shape (resize m r c) r c"
  by (simp add: has_shape_def resize_def length_vresize)

lemma rows_Matrix2: "i < r \<Longrightarrow> j < c \<Longrightarrow> rows (Matrix2 r c) ! i ! j = 0"
  by (simp add: Matrix2_def Matrix0_def resize_def vresize_def)

lemma Matrix_eqI:
  assumes "has_shape a r c" "has_shape b r c" "nrows a = nrows b" "ncols a = ncols b"
    and "\<And>i j. i < r \<Longrightarrow> j < c \<Longrightarrow> rows a ! i ! j = rows b ! i ! j"
  shows "a = b"
proof -
  have "rows a = rows b"
  proof (rule nth_equalityI)
    show "length (rows a) = length (rows b)" using assms(1,2) by (simp add: has_shape_def)
  next
    fix i assume "i < length (rows a)"
    then have i: "i < r" using assms(1) by (simp add: has_shape_def)
    show "rows a ! i = rows b ! i"
    proof (rule nth_equalityI)
      show "length (rows a ! i) = length (rows b ! i)"
        using assms(1,2) i by (simp add: has_shape_def)
    next
      fix j assume "j < length (rows a ! i)"
      then have "j < c" using assms(1) i by (simp add: has_shape_def)
      then show "rows a ! i ! j = rows b ! i ! j" using assms(5) i by simp
    qed
  qed
  then show ?thesis using assms(3,4) by simp
qed

section \<open>Transposition\<close>

lemma transpose_body_inv:
  assumes "has_shape m (nrows m) (ncols m)" "i < nrows m" "j < ncols m" "tr_inv m i j f"
  shows "\<exists>f'. transpose_body i j f = Done f' \<and> tr_inv m i (Suc j) f'"
proof -
  from assms(4) have f: "this f = m" "has_shape (mat_t f) (ncols m) (nrows m)"
    by (simp_all add: tr_inv_def)
  let ?t = "(mat_t f)\<lparr>rows := (rows (mat_t f))[j := (rows (mat_t f) ! j)[i := rows m ! i ! j]]\<rparr>"
  have "transpose_body i j f = Done (f\<lparr>mat_t := ?t\<rparr>)"
    using assms(1-3) f
    by (simp add: transpose_body_def checked_def cell_Some [of m "nrows m" "ncols m"]
        put_Some [of "mat_t f" "ncols m" "nrows m"])
  moreover have "tr_inv m i (Suc j) (f\<lparr>mat_t := ?t\<rparr>)"
    using assms(2-4) f
    by (auto simp: tr_inv_def has_shape_upd nth_upd [of "mat_t f" "ncols m" "nrows m"] less_Suc_eq)
  ultimately show ?thesis by blast
qed

lemma transpose_inner:
  assumes "has_shape m (nrows m) (ncols m)" "i < nrows m" "tr_inv m i 0 f"
  shows "\<exists>f'. for_loop 0 (ncols m) (transpose_body i) f = Done f' \<and> tr_inv m (Suc i) 0 f'"
proof -
  have "case for_loop 0 (ncols m) (transpose_body i) f of
          Done t \<Rightarrow> tr_inv m i (max 0 (ncols m)) t | Thrown e t \<Rightarrow> False"
  proof (rule for_loop_rule [where P = "tr_inv m i" and Q = "\<lambda>e t. False"])
    show "tr_inv m i 0 f" by (rule assms(3))
  next
    fix j t assume "j < ncols m" "tr_inv m i j t"
    with transpose_body_inv [OF assms(1,2)] obtain f' where
      "transpose_body i j t = Done f'" "tr_inv m i (Suc j) f'" by blast
    then show "case transpose_body i j t of Done t' \<Rightarrow> tr_inv m i (Suc j) t' | Thrown e t' \<Rightarrow> False"
      by simp
  qed
  then obtain f' where f': "for_loop 0 (ncols m) (transpose_body i) f = Done f'"
    "tr_inv m i (ncols m) f'"
    by (auto split: outcome.splits)
  from f'(2) have "tr_inv m (Suc i) 0 f'"
    by (auto simp: tr_inv_def less_Suc_eq)
  with f'(1) show ?thesis by blast
qed

lemma transpose_run_Done:
  assumes "has_shape m (nrows m) (ncols m)"
  shows "\<exists>f. transpose_run m = Done f \<and> tr_inv m (nrows m) 0 f"
proof -
  let ?f = "\<lparr>this = m, mat_t = Matrix2 (ncols m) (nrows m)\<rparr>"
  have init: "tr_inv m 0 0 ?f"
    by (simp add: tr_inv_def rows_Matrix2) (simp add: Matrix2_def has_shape_resize, simp add: resize_def)
  have "case for_loop 0 (nrows m) (\<lambda>i. for_loop 0 (ncols m) (transpose_body i)) ?f of
          Done t \<Rightarrow> tr_inv m (max 0 (nrows m)) 0 t | Thrown e t \<Rightarrow> False"
  proof (rule for_loop_rule [where P = "\<lambda>i. tr_inv m i 0" and Q = "\<lambda>e t. False"])
    show "tr_inv m 0 0 ?f" by (rule init)
  next
    fix i t assume "i < nrows m" "tr_inv m i 0 t"
    with transpose_inner [OF assms] obtain f' where
      "for_loop 0 (ncols m) (transpose_body i) t = Done f'" "tr_inv m (Suc i) 0 f'" by blast
    then show "case for_loop 0 (ncols m) (transpose_body i) t of
                 Done t' \<Rightarrow> tr_inv m (Suc i) 0 t' | Thrown e t' \<Rightarrow> False"
      by simp
  qed
  then show ?thesis
    by (auto simp: transpose_run_def Let_def split: outcome.splits)
qed

lemma transpose_m_Inr:
  assumes "has_shape m (nrows m) (ncols m)"
  shows "\<exists>t. transpose_m m = Inr t \<and> nrows t = ncols m \<and> ncols t = nrows m \<and>
           has_shape t (ncols m) (nrows m) \<and>
           (\<forall>i<nrows m. \<forall>j<ncols m. rows t ! j ! i = rows m ! i ! j)"
proof -
  from transpose_run_Done [OF assms] obtain f where
    f: "transpose_run m = Done f" "tr_inv m (nrows m) 0 f" by blast
  have "transpose_m m = Inr (mat_t f)" using f(1) by (simp add: transpose_m_def result_of_def)
  then show ?thesis using f(2) by (auto simp: tr_inv_def)
qed

section \<open>What a call keeps and what it throws\<close>

lemma obeys_Done [simp]: "obeys P Q (Done t) = P t"
  by (simp add: obeys_def)

lemma obeys_Thrown [simp]: "obeys P Q (Thrown e t) = Q e t"
  by (simp add: obeys_def)

lemma obeys_weaken:
  "obeys P Q r \<Longrightarrow> (\<And>t. P t \<Longrightarrow> P' t) \<Longrightarrow> (\<And>e t. Q e t \<Longrightarrow> Q' e t) \<Longrightarrow> obeys P' Q' r"
  by (cases r) simp_all

lemma obeys_checked:
  "(r = None \<Longrightarrow> Q OutOfBounds s) \<Longrightarrow> (\<And>t. r = Some t \<Longrightarrow> P t) \<Longrightarrow> obeys P Q (checked s r)"
  by (cases r) (simp_all add: checked_def)

lemma obeys_and_then:
  "obeys P' Q r \<Longrightarrow> (\<And>t. P' t \<Longrightarrow> obeys P Q (k t)) \<Longrightarrow> obeys P Q (and_then r k)"
  by (cases r) (simp_all add: and_then_def)

lemma obeys_seq:
  "obeys P Q r \<Longrightarrow> (\<And>t. P t \<Longrightarrow> obeys P Q (k t)) \<Longrightarrow> obeys P Q (and_then r k)"
  by (rule obeys_and_then)

lemma obeys_for_loop:
  assumes "P s" and "\<And>i t. P t \<Longrightarrow> obeys P Q (body i t)"
  shows "obeys P Q (for_loop a n body s)"
  unfolding obeys_def
  by (rule for_loop_rule [where P = "\<lambda>i. P"]) (use assms in \<open>simp_all add: obeys_def\<close>)

lemma for_down_stop [simp]: "j \<le> lo \<Longrightarrow> for_down j lo body s = Done s"
  by (simp add: for_down.simps)

lemma for_down_step:
  "lo < j \<Longrightarrow> for_down j lo body s = and_then (body j s) (for_down (j - 1) lo body)"
  by (subst for_down.simps) (simp add: and_then_def split: outcome.splits)

lemma obeys_for_down:
  assumes "P s" and "\<And>i t. P t \<Longrightarrow> obeys P Q (body i t)"
  shows "obeys P Q (for_down a lo body s)"
  using assms(1)
proof (induction "nat (a - lo)" arbitrary: a s)
  case 0
  then show ?case by simp
next
  case (Suc d)
  then have lt: "lo < a" and d: "d = nat (a - 1 - lo)" by linarith+
  have "obeys P Q (and_then (body a s) (for_down (a - 1) lo body))"
  proof (rule obeys_and_then)
    show "obeys P Q (body a s)" using Suc.prems by (rule assms(2))
  next
    fix t assume "P t"
    then show "obeys P Q (for_down (a - 1) lo body t)" using Suc.hyps(1) [OF d] by simp
  qed
  then show ?case using lt by (simp add: for_down_step)
qed

subsection \<open>inverse: receiver kept, kinds of errors\<close>

lemma identity_body_obeys:
  "this f = m \<Longrightarrow> obeys (\<lambda>f. this f = m) (oob (\<lambda>f. this f = m)) (identity_body i f)"
  unfolding identity_body_def by (rule obeys_checked) (auto simp: oob_def split: bind_splits)

lemma forward_j1_obeys:
  "this f = m \<Longrightarrow> obeys (\<lambda>f. this f = m) (oob (\<lambda>f. this f = m)) (forward_j1 k i coef j f)"
  unfolding forward_j1_def by (rule obeys_checked) (auto simp: oob_def split: bind_splits)

lemma forward_j2_obeys:
  "this f = m \<Longrightarrow> obeys (\<lambda>f. this f = m) (oob (\<lambda>f. this f = m)) (forward_j2 k i coef j f)"
  unfolding forward_j2_def by (rule obeys_checked) (auto simp: oob_def split: bind_splits)

lemma normalize_j1_obeys:
  "this f = m \<Longrightarrow> obeys (\<lambda>f. this f = m) (oob (\<lambda>f. this f = m)) (normalize_j1 i coef j f)"
  unfolding normalize_j1_def by (rule obeys_checked) (auto simp: oob_def split: bind_splits)

lemma normalize_j2_obeys:
  "this f = m \<Longrightarrow> obeys (\<lambda>f. this f = m) (oob (\<lambda>f. this f = m)) (normalize_j2 i coef j f)"
  unfolding normalize_j2_def by (rule obeys_checked) (auto simp: oob_def split: bind_splits)

lemma backward_m_obeys:
  "this f = m \<Longrightarrow> obeys (\<lambda>f. this f = m) (oob (\<lambda>f. this f = m)) (backward_m i j c f)"
  unfolding backward_m_def by (rule obeys_checked) (auto simp: oob_def split: bind_splits)

lemma forward_i_obeys:
  assumes "this f = m"
  shows "obeys (\<lambda>f. this f = m) (oob (\<lambda>f. this f = m)) (forward_i nsize k i f)"
proof (cases "do { a \<leftarrow> cell (mat f) i k; b \<leftarrow> cell (mat f) k k; Some (a / b) }")
  case None
  then show ?thesis using assms by (simp add: forward_i_def oob_def)
next
  case (Some coef)
  have "obeys (\<lambda>f. this f = m) (oob (\<lambda>f. this f = m))
          (and_then (for_loop k nsize (forward_j1 k i coef) f)
             (for_loop 0 nsize (forward_j2 k i coef)))"
    by (intro obeys_seq obeys_for_loop forward_j1_obeys forward_j2_obeys assms)
  then show ?thesis using Some by (simp add: forward_i_def)
qed

lemma forward_k_obeys:
  assumes "this f = m"
  shows "obeys (\<lambda>f. this f = m) (oob_or_singular (\<lambda>f. this f = m)) (forward_k nsize k f)"
proof (cases "cell (mat f) k k")
  case None
  then show ?thesis using assms by (simp add: forward_k_def oob_or_singular_def)
next
  case (Some p)
  have "obeys (\<lambda>f. this f = m) (oob (\<lambda>f. this f = m)) (for_loop (k + 1) nsize (forward_i nsize k) f)"
    by (intro obeys_for_loop forward_i_obeys assms)
  then have "obeys (\<lambda>f. this f = m) (oob_or_singular (\<lambda>f. this f = m))
               (for_loop (k + 1) nsize (forward_i nsize k) f)"
    by (rule obeys_weaken) (simp_all add: oob_def oob_or_singular_def)
  then show ?thesis using Some assms by (simp add: forward_k_def oob_or_singular_def)
qed

lemma normalize_i_obeys:
  assumes "this f = m"
  shows "obeys (\<lambda>f. this f = m) (oob_or_singular (\<lambda>f. this f = m)) (normalize_i nsize i f)"
proof (cases "cell (mat f) i i")
  case None
  then show ?thesis using assms by (simp add: normalize_i_def oob_or_singular_def)
next
  case (Some p)
  have "obeys (\<lambda>f. this f = m) (oob (\<lambda>f. this f = m))
          (and_then (for_loop i nsize (normalize_j1 i p) f) (for_loop 0 nsize (normalize_j2 i p)))"
    by (intro obeys_seq obeys_for_loop normalize_j1_obeys normalize_j2_obeys assms)
  then have "obeys (\<lambda>f. this f = m) (oob_or_singular (\<lambda>f. this f = m))
          (and_then (for_loop i nsize (normalize_j1 i p) f) (for_loop 0 nsize (normalize_j2 i p)))"
    by (rule obeys_weaken) (simp_all add: oob_def oob_or_singular_def)
  then show ?thesis using Some assms by (simp add: normalize_i_def oob_or_singular_def)
qed

lemma backward_j_obeys:
  assumes "this f = m"
  shows "obeys (\<lambda>f. this f = m) (oob (\<lambda>f. this f = m)) (backward_j nsize i j f)"
  unfolding backward_j_def
proof (rule obeys_and_then)
  show "obeys (\<lambda>f. this f = m) (oob (\<lambda>f. this f = m)) (for_loop 0 nsize (backward_m i j) f)"
    by (intro obeys_for_loop backward_m_obeys assms)
next
  fix t :: inverse_frame assume "this t = m"
  then show "obeys (\<lambda>f. this f = m) (oob (\<lambda>f. this f = m))
     (checked t (do { a \<leftarrow> cell (mat t) (nat i) (nat j); b \<leftarrow> cell (mat t) (nat j) (nat j);
        m' \<leftarrow> put (mat t) (nat i) (nat j) (a - b * a); Some (t\<lparr>mat := m'\<rparr>) }))"
    by (intro obeys_checked) (auto simp: oob_def split: bind_splits)
qed

lemma backward_obeys:
  assumes "this f = m"
  shows "obeys (\<lambda>f. this f = m) (oob (\<lambda>f. this f = m)) (backward nsize f)"
  unfolding backward_def backward_i_def
  by (intro obeys_for_down backward_j_obeys assms)

lemma assign_body_obeys:
  "rhs f = m \<Longrightarrow> obeys (\<lambda>f. rhs f = m) (oob (\<lambda>f. rhs f = m)) (assign_body i j f)"
  unfolding assign_body_def by (rule obeys_checked) (auto simp: oob_def split: bind_splits)

lemma assign_row_obeys:
  assumes "rhs f = m"
  shows "obeys (\<lambda>f. rhs f = m) (oob (\<lambda>f. rhs f = m)) (assign_row i f)"
  unfolding assign_row_def
proof (rule obeys_seq)
  show "obeys (\<lambda>f. rhs f = m) (oob (\<lambda>f. rhs f = m))
     (checked f (if i < length (rows (lhs f))
        then Some (f\<lparr>lhs := (lhs f)\<lparr>rows :=
               (rows (lhs f))[i := vresize (ncols (lhs f)) 0 (rows (lhs f) ! i)]\<rparr>\<rparr>)
        else None))"
    using assms by (intro obeys_checked) (auto simp: oob_def split: if_splits)
next
  fix t :: operands assume "rhs t = m"
  then show "obeys (\<lambda>f. rhs f = m) (oob (\<lambda>f. rhs f = m))
               (for_loop 0 (ncols (lhs t)) (assign_body i) t)"
    by (intro obeys_for_loop assign_body_obeys)
qed

lemma assign_run_obeys:
  "rhs f = m \<Longrightarrow> obeys (\<lambda>f. rhs f = m) (oob (\<lambda>f. rhs f = m)) (assign_run f)"
  unfolding assign_run_def Let_def
  by (intro obeys_for_loop assign_row_obeys) simp

lemma Matrix_copy_error: "Matrix_copy orig = Inl e \<Longrightarrow> e = OutOfBounds"
  using assign_run_obeys [of "\<lparr>lhs = Matrix0, rhs = orig\<rparr>" orig]
  by (cases "assign_run \<lparr>lhs = Matrix0, rhs = orig\<rparr>")
     (simp_all add: Matrix_copy_def result_of_def oob_def)

lemma inverse_init_obeys:
  assumes "this f = m"
  shows "obeys (\<lambda>f. this f = m) (oob (\<lambda>f. this f = m)) (inverse_init nsize f)"
proof (cases "Matrix_copy (this (f\<lparr>mat_inv := Matrix1 nsize\<rparr>))")
  case (Inl e)
  then have "e = OutOfBounds" by (rule Matrix_copy_error)
  then show ?thesis using Inl assms by (simp add: inverse_init_def oob_def)
next
  case (Inr c)
  have "obeys (\<lambda>f. this f = m) (oob (\<lambda>f. this f = m))
          (for_loop 0 nsize identity_body (f\<lparr>mat_inv := Matrix1 nsize, mat := c\<rparr>))"
    by (intro obeys_for_loop identity_body_obeys) (simp add: assms)
  then show ?thesis using Inr by (simp add: inverse_init_def)
qed

lemma forward_obeys:
  "this f = m \<Longrightarrow>
   obeys (\<lambda>f. this f = m) (oob_or_singular (\<lambda>f. this f = m)) (forward nsize bound f)"
  unfolding forward_def by (intro obeys_for_loop forward_k_obeys)

lemma normalize_obeys:
  "this f = m \<Longrightarrow>
   obeys (\<lambda>f. this f = m) (oob_or_singular (\<lambda>f. this f = m)) (normalize nsize bound f)"
  unfolding normalize_def by (intro obeys_for_loop normalize_i_obeys)

lemma oob_weaken:
  "obeys P (oob P) r \<Longrightarrow> obeys P (oob_or_singular P) r"
  by (erule obeys_weaken) (simp_all add: oob_def oob_or_singular_def)

lemma inverse_run_square:
  assumes "nrows m = ncols m"
  shows "obeys (\<lambda>f. this f = m) (oob_or_singular (\<lambda>f. this f = m)) (inverse_run m)"
proof -
  let ?f = "\<lparr>this = m, mat_inv = Matrix0, mat = Matrix0\<rparr>"
  have "obeys (\<lambda>f. this f = m) (oob_or_singular (\<lambda>f. this f = m))
     (and_then (inverse_init (nrows m) ?f) (\<lambda>f.
      and_then (forward (nrows m) (size_sub (nrows m) 1) f) (\<lambda>f.
      and_then (normalize (nrows m) (nrows m) f) (backward (nrows m)))))"
    by (intro obeys_seq oob_weaken inverse_init_obeys forward_obeys normalize_obeys
        backward_obeys) simp
  then show ?thesis using assms by (simp add: inverse_run_def Let_def)
qed

lemma inverse_run_not_square:
  "nrows m \<noteq> ncols m \<Longrightarrow>
   inverse_run m = Thrown ShapeMismatch \<lparr>this = m, mat_inv = Matrix0, mat = Matrix0\<rparr>"
  by (simp add: inverse_run_def Let_def)

subsection \<open>transpose and the operators: operands kept, kinds of errors\<close>

lemma transpose_body_obeys:
  "this f = m \<Longrightarrow> obeys (\<lambda>f. this f = m) (oob (\<lambda>f. this f = m)) (transpose_body i j f)"
  unfolding transpose_body_def by (rule obeys_checked) (auto simp: oob_def split: bind_splits)

lemma transpose_run_obeys:
  "obeys (\<lambda>f. this f = m) (oob (\<lambda>f. this f = m)) (transpose_run m)"
  unfolding transpose_run_def Let_def
  by (intro obeys_for_loop transpose_body_obeys) simp

lemma add_body_obeys:
  "lhs f = a \<and> rhs f = b \<Longrightarrow>
   obeys (\<lambda>f. lhs f = a \<and> rhs f = b) (oob (\<lambda>f. lhs f = a \<and> rhs f = b)) (add_body i j f)"
  unfolding add_body_def by (rule obeys_checked) (auto simp: oob_def split: bind_splits)

lemma minus_body_obeys:
  "lhs f = a \<and> rhs f = b \<Longrightarrow>
   obeys (\<lambda>f. lhs f = a \<and> rhs f = b) (oob (\<lambda>f. lhs f = a \<and> rhs f = b)) (minus_body i j f)"
  unfolding minus_body_def by (rule obeys_checked) (auto simp: oob_def split: bind_splits)

lemma mul_k_obeys:
  "lhs f = a \<and> rhs f = b \<Longrightarrow>
   obeys (\<lambda>f. lhs f = a \<and> rhs f = b) (oob (\<lambda>f. lhs f = a \<and> rhs f = b)) (mul_k i j k f)"
  unfolding mul_k_def by (rule obeys_checked) (auto simp: oob_def split: bind_splits)

lemma mul_j_obeys:
  assumes "lhs f = a \<and> rhs f = b"
  shows "obeys (\<lambda>f. lhs f = a \<and> rhs f = b) (oob (\<lambda>f. lhs f = a \<and> rhs f = b)) (mul_j mid i j f)"
  unfolding mul_j_def
proof (rule obeys_seq)
  show "obeys (\<lambda>f. lhs f = a \<and> rhs f = b) (oob (\<lambda>f. lhs f = a \<and> rhs f = b))
          (for_loop 0 mid (mul_k i j) (f\<lparr>sum_v := 0\<rparr>))"
    by (intro obeys_for_loop mul_k_obeys) (simp add: assms)
next
  fix t :: mul_frame assume "lhs t = a \<and> rhs t = b"
  then show "obeys (\<lambda>f. lhs f = a \<and> rhs f = b) (oob (\<lambda>f. lhs f = a \<and> rhs f = b))
     (checked t (do { m' \<leftarrow> put (mat_mul t) i j (sum_v t); Some (t\<lparr>mat_mul := m'\<rparr>) }))"
    by (intro obeys_checked) (auto simp: oob_def split: bind_splits)
qed

lemma oob_shape: "obeys P (oob P) r \<Longrightarrow> obeys P (shape_or_oob True P) r"
  by (erule obeys_weaken) (simp_all add: oob_def shape_or_oob_def)

lemma add_run_obeys:
  "obeys (\<lambda>f. lhs f = a \<and> rhs f = b)
     (shape_or_oob (nrows a = nrows b \<and> ncols a = ncols b) (\<lambda>f. lhs f = a \<and> rhs f = b))
     (add_run a b)"
proof (cases "nrows a = nrows b \<and> ncols a = ncols b")
  case True
  let ?f = "\<lparr>lhs = a, rhs = b, mat_add = resize (Matrix2 0 0) (nrows a) (ncols a)\<rparr>"
  have "obeys (\<lambda>f. lhs f = a \<and> rhs f = b) (shape_or_oob True (\<lambda>f. lhs f = a \<and> rhs f = b))
          (for_loop 0 (nrows a) (\<lambda>i. for_loop 0 (ncols a) (add_body i)) ?f)"
    by (intro oob_shape obeys_for_loop add_body_obeys) simp
  then show ?thesis using True by (simp add: add_run_def Let_def)
next
  case False
  then show ?thesis by (auto simp: add_run_def Let_def shape_or_oob_def)
qed

lemma minus_run_obeys:
  "obeys (\<lambda>f. lhs f = a \<and> rhs f = b)
     (shape_or_oob (nrows a = nrows b \<and> ncols a = ncols b) (\<lambda>f. lhs f = a \<and> rhs f = b))
     (minus_run a b)"
proof (cases "nrows a = nrows b \<and> ncols a = ncols b")
  case True
  let ?f = "\<lparr>lhs = a, rhs = b, mat_minus = resize (Matrix2 0 0) (nrows a) (ncols a)\<rparr>"
  have "obeys (\<lambda>f. lhs f = a \<and> rhs f = b) (shape_or_oob True (\<lambda>f. lhs f = a \<and> rhs f = b))
          (for_loop 0 (nrows a) (\<lambda>i. for_loop 0 (ncols a) (minus_body i)) ?f)"
    by (intro oob_shape obeys_for_loop minus_body_obeys) simp
  then show ?thesis using True by (simp add: minus_run_def Let_def)
next
  case False
  then show ?thesis by (auto simp: minus_run_def Let_def shape_or_oob_def)
qed

lemma mul_run_obeys:
  "obeys (\<lambda>f. lhs f = a \<and> rhs f = b)
     (shape_or_oob (ncols a = nrows b) (\<lambda>f. lhs f = a \<and> rhs f = b))
     (mul_run a b)"
proof (cases "ncols a = nrows b")
  case True
  let ?f = "\<lparr>lhs = a, rhs = b, mat_mul = resize (Matrix2 0 0) (nrows a) (ncols b), sum_v = 0\<rparr>"
  have "obeys (\<lambda>f. lhs f = a \<and> rhs f = b) (shape_or_oob True (\<lambda>f. lhs f = a \<and> rhs f = b))
          (for_loop 0 (nrows a) (\<lambda>i. for_loop 0 (ncols b) (mul_j (ncols a) i)) ?f)"
    by (intro oob_shape obeys_for_loop mul_j_obeys) simp
  then show ?thesis using True by (simp add: mul_run_def Let_def)
next
  case False
  then show ?thesis by (auto simp: mul_run_def Let_def shape_or_oob_def)
qed

lemma result_of_Inl_iff:
  "result_of g r = Inl e \<longleftrightarrow> (\<exists>t. r = Thrown e t)"
  by (cases r) (simp_all add: result_of_def)

lemma obeys_state_of: "obeys P (\<lambda>e. P) r \<Longrightarrow> P (state_of r)"
  by (cases r) (simp_all add: state_of_def)

lemma inverse_run_this: "this (state_of (inverse_run m)) = m"
proof (cases "nrows m = ncols m")
  case True
  from inverse_run_square [OF True]
  have "obeys (\<lambda>f. this f = m) (\<lambda>e f. this f = m) (inverse_run m)"
    by (rule obeys_weaken) (simp_all add: oob_or_singular_def)
  then show ?thesis by (rule obeys_state_of)
next
  case False
  then show ?thesis by (simp add: inverse_run_not_square state_of_def)
qed

lemma inverse_ShapeMismatch_iff: "inverse m = Inl ShapeMismatch \<longleftrightarrow> nrows m \<noteq> ncols m"
proof (cases "nrows m = ncols m")
  case True
  from inverse_run_square [OF True] have "\<And>t. inverse_run m \<noteq> Thrown ShapeMismatch t"
    by (auto simp: oob_or_singular_def)
  then show ?thesis using True by (simp add: inverse_def result_of_Inl_iff)
next
  case False
  then show ?thesis by (simp add: inverse_def inverse_run_not_square result_of_def)
qed

lemma transpose_run_this: "this (state_of (transpose_run m)) = m"
proof -
  from transpose_run_obeys [of m]
  have "obeys (\<lambda>f. this f = m) (\<lambda>e f. this f = m) (transpose_run m)"
    by (rule obeys_weaken) (simp_all add: oob_def)
  then show ?thesis by (rule obeys_state_of)
qed

lemma add_run_operands:
  "lhs (state_of (add_run a b)) = a \<and> rhs (state_of (add_run a b)) = b"
proof -
  from add_run_obeys [of a b]
  have "obeys (\<lambda>f. lhs f = a \<and> rhs f = b) (\<lambda>e f. lhs f = a \<and> rhs f = b) (add_run a b)"
    by (rule obeys_weaken) (simp_all add: shape_or_oob_def)
  then show ?thesis by (rule obeys_state_of)
qed

lemma minus_run_operands:
  "lhs (state_of (minus_run a b)) = a \<and> rhs (state_of (minus_run a b)) = b"
proof -
  from minus_run_obeys [of a b]
  have "obeys (\<lambda>f. lhs f = a \<and> rhs f = b) (\<lambda>e f. lhs f = a \<and> rhs f = b) (minus_run a b)"
    by (rule obeys_weaken) (simp_all add: shape_or_oob_def)
  then show ?thesis by (rule obeys_state_of)
qed

lemma mul_run_operands:
  "lhs (state_of (mul_run a b)) = a \<and> rhs (state_of (mul_run a b)) = b"
proof -
  from mul_run_obeys [of a b]
  have "obeys (\<lambda>f. lhs f = a \<and> rhs f = b) (\<lambda>e f. lhs f = a \<and> rhs f = b) (mul_run a b)"
    by (rule obeys_weaken) (simp_all add: shape_or_oob_def)
  then show ?thesis by (rule obeys_state_of)
qed

lemma shape_or_oob_iff:
  assumes "obeys P (shape_or_oob ok P) r"
  shows "result_of g r = Inl ShapeMismatch \<longleftrightarrow> \<not> ok \<and> (\<exists>t. r = Thrown ShapeMismatch t)"
  using assms by (cases r) (auto simp: result_of_def shape_or_oob_def)

lemma op_add_ShapeMismatch_iff:
  "op_add a b = Inl ShapeMismatch \<longleftrightarrow> \<not> (nrows a = nrows b \<and> ncols a = ncols b)"
  unfolding op_add_def shape_or_oob_iff [OF add_run_obeys]
  by (auto simp: add_run_def Let_def)

lemma op_sub_ShapeMismatch_iff:
  "op_sub a b = Inl ShapeMismatch \<longleftrightarrow> \<not> (nrows a = nrows b \<and> ncols a = ncols b)"
  unfolding op_sub_def shape_or_oob_iff [OF minus_run_obeys]
  by (auto simp: minus_run_def Let_def)

lemma op_mul_ShapeMismatch_iff:
  "op_mul a b = Inl ShapeMismatch \<longleftrightarrow> ncols a \<noteq> nrows b"
  unfolding op_mul_def shape_or_oob_iff [OF mul_run_obeys]
  by (auto simp: mul_run_def Let_def)

section \<open>Evaluation on concrete matrices\<close>

lemma replicate_num: "replicate (numeral k) x = x # replicate (pred_numeral k) x"
  by (simp add: numeral_eq_Suc)

lemmas inverse_defs = inverse_def inverse_run_def inverse_init_def Matrix_copy_def assign_run_def
  assign_row_def assign_body_def identity_body_def forward_def forward_k_def forward_i_def
  forward_j1_def forward_j2_def normalize_def normalize_i_def normalize_j1_def normalize_j2_def
  backward_def backward_i_def backward_j_def backward_m_def
  Matrix1_def Matrix2_def Matrix0_def resize_def vresize_def cell_def put_def checked_def
  and_then_def result_of_def for_loop.simps for_down.simps size_sub_def to_int_def
  ZERO_LIMIT_def Let_def replicate_num

section \<open>checkDominant\<close>

lemma rounding_mono: "rounding F \<Longrightarrow> x \<le> y \<Longrightarrow> rnd F x \<le> rnd F y"
  by (simp add: rounding_def mono_def)

lemma rounding_nonneg: "rounding F \<Longrightarrow> 0 \<le> z \<Longrightarrow> 0 \<le> rnd F z"
  using rounding_mono [of F 0 z] by (simp add: rounding_def)

lemma fl_at_least:
  assumes "rounding F" "0 \<le> b" "b \<le> rnd F z"
  shows "at_least F b (fl F z)"
proof -
  have "\<not> rnd F z < - dmax F" using assms by (simp add: rounding_def)
  moreover have "rnd F (rnd F z) = rnd F z" using assms(1) by (simp add: rounding_def)
  ultimately show ?thesis using assms(3) by (simp add: fl_def Let_def)
qed

lemma accumulate_step:
  assumes "rounding F" "0 \<le> b" "at_least F b a" "finite_cell F (Finite x)"
  shows "at_least F (max b \<bar>x\<bar>) (d_add F (d_abs a) (d_abs (Finite x)))"
    and "d_add F (d_abs a) (d_abs (Finite x)) = d_add F a (d_abs (Finite x))"
proof -
  show "at_least F (max b \<bar>x\<bar>) (d_add F (d_abs a) (d_abs (Finite x)))"
  proof (cases a)
    case (Finite y)
    with assms(2,3) have y: "b \<le> y" "0 \<le> y" "rnd F y = y" by simp_all
    have "rnd F y \<le> rnd F (y + \<bar>x\<bar>)" by (rule rounding_mono [OF assms(1)]) simp
    moreover have "rnd F \<bar>x\<bar> \<le> rnd F (y + \<bar>x\<bar>)"
      using y(2) by (intro rounding_mono [OF assms(1)]) simp
    ultimately have "max b \<bar>x\<bar> \<le> rnd F (y + \<bar>x\<bar>)"
      using y(1,3) assms(4) by simp
    then have "at_least F (max b \<bar>x\<bar>) (fl F (y + \<bar>x\<bar>))"
      using assms(1,2) by (intro fl_at_least) simp_all
    then show ?thesis using Finite y(2) by simp
  qed (use assms(3) in simp_all)
  show "d_add F (d_abs a) (d_abs (Finite x)) = d_add F a (d_abs (Finite x))"
    using assms(2,3) by (cases a) simp_all
qed

lemma at_least_weaken: "at_least F b a \<Longrightarrow> c \<le> b \<Longrightarrow> at_least F c a"
  by (cases a) simp_all

lemma accumulate_keeps:
  assumes "rounding F"
  shows "0 \<le> b \<Longrightarrow> at_least F b a \<Longrightarrow> list_all (finite_cell F) row \<Longrightarrow>
         at_least F b (foldl (\<lambda>lhs rhs. d_add F (d_abs lhs) (d_abs rhs)) a row)"
proof (induction row arbitrary: a b)
  case Nil
  then show ?case by simp
next
  case (Cons c row)
  from Cons.prems(3) obtain x where c: "c = Finite x" by (cases c) simp_all
  with Cons.prems(3) have fc: "finite_cell F (Finite x)" by simp
  have "at_least F (max b \<bar>x\<bar>) (d_add F (d_abs a) (d_abs c))"
    unfolding c by (rule accumulate_step(1) [OF assms Cons.prems(1,2) fc])
  then have "at_least F b (d_add F (d_abs a) (d_abs c))"
    by (rule at_least_weaken) simp
  from Cons.IH [OF Cons.prems(1) this] Cons.prems(3) show ?case by simp
qed

lemma accumulate_covers:
  assumes "rounding F"
  shows "0 \<le> b \<Longrightarrow> at_least F b a \<Longrightarrow> list_all (finite_cell F) row \<Longrightarrow>
         j < length row \<Longrightarrow> row ! j = Finite x \<Longrightarrow>
         at_least F \<bar>x\<bar> (foldl (\<lambda>lhs rhs. d_add F (d_abs lhs) (d_abs rhs)) a row)"
proof (induction row arbitrary: a b j)
  case Nil
  then show ?case by simp
next
  case (Cons c row)
  from Cons.prems(3) obtain y where c: "c = Finite y" by (cases c) simp_all
  with Cons.prems(3) have fc: "finite_cell F (Finite y)" and rest: "list_all (finite_cell F) row"
    by simp_all
  have step: "at_least F (max b \<bar>y\<bar>) (d_add F (d_abs a) (d_abs c))"
    unfolding c by (rule accumulate_step(1) [OF assms Cons.prems(1,2) fc])
  have nn: "0 \<le> max b \<bar>y\<bar>" by simp
  show ?case
  proof (cases j)
    case 0
    with Cons.prems(5) c have "x = y" by simp
    with step have "at_least F \<bar>x\<bar> (d_add F (d_abs a) (d_abs c))"
      by (elim at_least_weaken) simp
    from accumulate_keeps [OF assms _ this rest] show ?thesis by simp
  next
    case (Suc k)
    with Cons.prems(4,5) have "k < length row" "row ! k = Finite x" by simp_all
    from Cons.IH [OF nn step rest this] show ?thesis by simp
  qed
qed

lemma accumulate_abs_rowAbsSum_from:
  assumes "rounding F"
  shows "0 \<le> b \<Longrightarrow> at_least F b a \<Longrightarrow> list_all (finite_cell F) row \<Longrightarrow>
         foldl (\<lambda>lhs rhs. d_add F (d_abs lhs) (d_abs rhs)) a row =
         foldl (d_add F) a (map d_abs row)"
proof (induction row arbitrary: a b)
  case Nil
  then show ?case by simp
next
  case (Cons c row)
  from Cons.prems(3) obtain y where c: "c = Finite y" by (cases c) simp_all
  with Cons.prems(3) have fc: "finite_cell F (Finite y)" and rest: "list_all (finite_cell F) row"
    by simp_all
  note step = accumulate_step [OF assms Cons.prems(1,2) fc]
  have nn: "0 \<le> max b \<bar>y\<bar>" by simp
  from Cons.IH [OF nn step(1) [folded c] rest] step(2) show ?case by (simp add: c)
qed

lemma zero_at_least: "rounding F \<Longrightarrow> at_least F 0 (Finite 0)"
  by (simp add: rounding_def)

lemma accumulate_abs_rowAbsSum:
  assumes "rounding F" "list_all (finite_cell F) row"
  shows "accumulate_abs F row = rowAbsSum F row"
  unfolding accumulate_abs_def rowAbsSum_def
  using assms(1) order_refl zero_at_least [OF assms(1)] assms(2)
  by (rule accumulate_abs_rowAbsSum_from)

lemma accumulate_abs_at_least:
  assumes "rounding F" "list_all (finite_cell F) row" "j < length row" "row ! j = Finite x"
  shows "at_least F \<bar>x\<bar> (accumulate_abs F row)"
  unfolding accumulate_abs_def
  using assms(1) order_refl zero_at_least [OF assms(1)] assms(2-4)
  by (rule accumulate_covers)

lemma fl_cases:
  obtains "fl F z = PlusInf" "dmax F < rnd F z"
  | "fl F z = MinusInf" "rnd F z < - dmax F"
  | "fl F z = Finite (rnd F z)"
proof (cases "dmax F < rnd F z")
  case True
  then have "fl F z = PlusInf" by (simp add: fl_def Let_def)
  with True that(1) show ?thesis by blast
next
  case False
  show ?thesis
  proof (cases "rnd F z < - dmax F")
    case True
    with False have "fl F z = MinusInf" by (simp add: fl_def Let_def)
    with True that(2) show ?thesis by blast
  next
    case nl: False
    with False have "fl F z = Finite (rnd F z)" by (simp add: fl_def Let_def)
    with that(3) show ?thesis by blast
  qed
qed

lemma row_test:
  assumes "rounding F" "finite_cell F (Finite x)" "at_least F \<bar>x\<bar> s"
  shows "\<not> d_less (Finite x) (d_sub F s (Finite x)) \<longleftrightarrow>
         d_ge (Finite x) (d_sub F s (d_abs (Finite x)))"
proof (cases s)
  case (Finite y)
  with assms(3) have y: "\<bar>x\<bar> \<le> y" by simp
  show ?thesis
  proof (cases "0 \<le> x")
    case True
    then show ?thesis unfolding Finite d_sub_def
      by (cases F "y - x" rule: fl_cases) (simp_all add: d_ge_def)
  next
    case False
    then have neg: "x < 0" by simp
    have 1: "0 \<le> rnd F (y - x)" using y neg by (intro rounding_nonneg [OF assms(1)]) simp
    have 2: "0 \<le> rnd F (y - \<bar>x\<bar>)" using y by (intro rounding_nonneg [OF assms(1)]) simp
    have d: "0 \<le> dmax F" using assms(1) by (simp add: rounding_def)
    have "d_less (Finite x) (fl F (y - x))"
      using 1 neg d by (cases F "y - x" rule: fl_cases) simp_all
    moreover have "\<not> d_ge (Finite x) (fl F (y - \<bar>x\<bar>))"
      using 2 neg d by (cases F "y - \<bar>x\<bar>" rule: fl_cases) (simp_all add: d_ge_def)
    ultimately show ?thesis unfolding Finite d_sub_def by simp
  qed
qed (use assms(3) in \<open>simp_all add: d_sub_def d_ge_def\<close>)

lemma checkDominant_from_finite:
  assumes "rounding F" "wf_d m" "nrows_d m = ncols_d m" "list_all (list_all (finite_cell F)) (rows_d m)"
  shows "checkDominant_from F i m = Inr (\<forall>k<nrows_d m. i \<le> k \<longrightarrow> dominant_row F m k)"
proof (induction "nrows_d m - i" arbitrary: i)
  case 0
  then have "nrows_d m \<le> i" by simp
  then show ?case by (subst checkDominant_from.simps) auto
next
  case (Suc d)
  then have lt: "i < nrows_d m" and d: "d = nrows_d m - Suc i" by simp_all
  from assms(2) have len: "length (rows_d m) = nrows_d m"
    and all: "\<forall>k<length (rows_d m). length (rows_d m ! k) = ncols_d m"
    by (simp_all add: wf_d_def list_all_length)
  from len all lt assms(3) have row: "i < length (rows_d m)" "i < length (rows_d m ! i)" by simp_all
  from assms(4) row(1) have cells: "list_all (finite_cell F) (rows_d m ! i)"
    by (simp add: list_all_length)
  with row(2) have fc: "finite_cell F (rows_d m ! i ! i)" by (simp add: list_all_length)
  then obtain x where x: "rows_d m ! i ! i = Finite x" by (cases "rows_d m ! i ! i") simp_all
  have s: "at_least F \<bar>x\<bar> (accumulate_abs F (rows_d m ! i))"
    using assms(1) cells row(2) x by (rule accumulate_abs_at_least)
  have test: "\<not> d_less (rows_d m ! i ! i) (d_sub F (accumulate_abs F (rows_d m ! i)) (rows_d m ! i ! i))
              \<longleftrightarrow> dominant_row F m i"
    unfolding dominant_row_def accumulate_abs_rowAbsSum [OF assms(1) cells, symmetric] x
    using assms(1) fc [unfolded x] s by (rule row_test)
  have split: "(\<forall>k<nrows_d m. i \<le> k \<longrightarrow> dominant_row F m k) \<longleftrightarrow>
               dominant_row F m i \<and> (\<forall>k<nrows_d m. Suc i \<le> k \<longrightarrow> dominant_row F m k)"
    using lt by (auto simp: Suc_le_eq order_le_less)
  show ?case
  proof (cases "d_less (rows_d m ! i ! i) (d_sub F (accumulate_abs F (rows_d m ! i)) (rows_d m ! i ! i))")
    case True
    then have "checkDominant_from F i m = Inr False"
      using lt row by (subst checkDominant_from.simps) (simp add: Let_def)
    moreover have "\<not> dominant_row F m i" using True test by blast
    ultimately show ?thesis using split by simp
  next
    case False
    then have "checkDominant_from F i m = checkDominant_from F (Suc i) m"
      using lt row by (subst checkDominant_from.simps) (simp add: Let_def)
    moreover have "dominant_row F m i" using False test by blast
    ultimately show ?thesis using split Suc.hyps(1) [OF d] by simp
  qed
qed

lemma fine_mono: "x \<le> y \<Longrightarrow> (of_int (round (x * 8)) / 8 :: real) \<le> of_int (round (y * 8)) / 8"
  by (simp add: round_mono divide_right_mono)

lemma coarse_mono: "x \<le> y \<Longrightarrow> (of_int (round x) :: real) \<le> of_int (round y)"
  by (simp add: round_mono)

lemma fine_bounds:
  assumes "\<bar>z\<bar> \<le> 8"
  shows "- 8 \<le> (of_int (round (z * 8)) / 8 :: real)" "(of_int (round (z * 8)) / 8 :: real) \<le> 8"
proof -
  from assms have "- 8 \<le> z" "z \<le> 8" by simp_all
  from fine_mono [OF this(1)] fine_mono [OF this(2)]
  show "- 8 \<le> (of_int (round (z * 8)) / 8 :: real)" "(of_int (round (z * 8)) / 8 :: real) \<le> 8"
    by simp_all
qed

lemma rounding_small_format: "rounding small_format"
proof -
  let ?r = "rnd small_format"
  have "?r x \<le> ?r y" if "x \<le> y" for x y
  proof (cases "\<bar>x\<bar> \<le> 8")
    case inx: True
    show ?thesis
    proof (cases "\<bar>y\<bar> \<le> 8")
      case True
      with inx fine_mono [OF that] show ?thesis by (simp add: small_format_def)
    next
      case False
      with inx that have "8 \<le> y" by simp
      from coarse_mono [OF this] fine_bounds(2) [OF inx] False inx
      show ?thesis by (simp add: small_format_def)
    qed
  next
    case outx: False
    show ?thesis
    proof (cases "\<bar>y\<bar> \<le> 8")
      case True
      with outx that have "x \<le> - 8" by simp
      from coarse_mono [OF this] fine_bounds(1) [OF True] True outx
      show ?thesis by (simp add: small_format_def)
    next
      case False
      with outx coarse_mono [OF that] show ?thesis by (simp add: small_format_def)
    qed
  qed
  then have "mono ?r" by (simp add: mono_def)
  moreover have "?r 0 = 0" by (simp add: small_format_def)
  moreover have "?r (?r z) = ?r z" for z
  proof (cases "\<bar>z\<bar> \<le> 8")
    case True
    have "(of_int (round (z * 8)) / 8 :: real) * 8 = of_int (round (z * 8))" by simp
    with True fine_bounds [OF True] show ?thesis by (simp add: small_format_def abs_le_iff)
  next
    case False
    have "(of_int (round z) * 8 :: real) = of_int (round z * 8)" by simp
    then have "round (of_int (round z) * 8 :: real) = round z * 8"
      by (simp only: round_of_int)
    with False show ?thesis by (simp add: small_format_def)
  qed
  moreover have "0 \<le> dmax small_format" by (simp add: small_format_def)
  ultimately show ?thesis by (simp add: rounding_def)
qed

lemma infinite_diagonal_passes:
  "checkDominant F \<lparr>rows_d = [[PlusInf]], nrows_d = 1, ncols_d = 1\<rparr> = Inr True \<and>
   \<not> dominant_row F \<lparr>rows_d = [[PlusInf]], nrows_d = 1, ncols_d = 1\<rparr> 0 \<and>
   checkDominant F \<lparr>rows_d = [[NaN]], nrows_d = 1, ncols_d = 1\<rparr> = Inr True \<and>
   \<not> dominant_row F \<lparr>rows_d = [[NaN]], nrows_d = 1, ncols_d = 1\<rparr> 0"
  by (simp add: checkDominant_def checkDominant_from.simps accumulate_abs_def
      dominant_row_def rowAbsSum_def d_sub_def d_ge_def Let_def)

section \<open>operator*\<close>







section \<open>The singular-matrix error\<close>

lemma and_then_Thrown_iff:
  "and_then r k = Thrown e t \<longleftrightarrow> r = Thrown e t \<or> (\<exists>s. r = Done s \<and> k s = Thrown e t)"
  by (cases r) (simp_all add: and_then_def)

lemma and_then_Done_iff:
  "and_then r k = Done t \<longleftrightarrow> (\<exists>s. r = Done s \<and> k s = Done t)"
  by (cases r) (simp_all add: and_then_def)

lemma and_then_assoc: "and_then (and_then r k) h = and_then r (\<lambda>s. and_then (k s) h)"
  by (cases r) (simp_all add: and_then_def)

lemma obeys_oob_not_singular: "obeys P (oob P) r \<Longrightarrow> r \<noteq> Thrown SingularMatrix t"
  by (cases r) (simp_all add: oob_def)

lemma forward_k_Singular_iff:
  "forward_k nsize k f = Thrown SingularMatrix t \<longleftrightarrow>
   t = f \<and> (\<exists>p. cell (mat f) k k = Some p \<and> \<bar>p\<bar> < ZERO_LIMIT)"
proof (cases "cell (mat f) k k")
  case None
  then show ?thesis by (simp add: forward_k_def)
next
  case (Some p)
  have "obeys (\<lambda>g. this g = this f) (oob (\<lambda>g. this g = this f))
          (for_loop (k + 1) nsize (forward_i nsize k) f)"
    by (intro obeys_for_loop forward_i_obeys) simp
  then have "for_loop (k + 1) nsize (forward_i nsize k) f \<noteq> Thrown SingularMatrix t"
    by (rule obeys_oob_not_singular)
  then show ?thesis using Some by (auto simp: forward_k_def)
qed

lemma normalize_i_Singular_iff:
  "normalize_i nsize i f = Thrown SingularMatrix t \<longleftrightarrow>
   t = f \<and> (\<exists>p. cell (mat f) i i = Some p \<and> \<bar>p\<bar> < ZERO_LIMIT)"
proof (cases "cell (mat f) i i")
  case None
  then show ?thesis by (simp add: normalize_i_def)
next
  case (Some p)
  have "obeys (\<lambda>g. this g = this f) (oob (\<lambda>g. this g = this f))
          (and_then (for_loop i nsize (normalize_j1 i p) f) (for_loop 0 nsize (normalize_j2 i p)))"
    by (intro obeys_seq obeys_for_loop normalize_j1_obeys normalize_j2_obeys) simp
  then have "and_then (for_loop i nsize (normalize_j1 i p) f)
               (for_loop 0 nsize (normalize_j2 i p)) \<noteq> Thrown SingularMatrix t"
    by (rule obeys_oob_not_singular)
  then show ?thesis using Some by (auto simp: normalize_i_def)
qed

lemma forward_Singular_iff:
  "forward nsize bound f = Thrown SingularMatrix t \<longleftrightarrow>
   (\<exists>k<bound. forward nsize k f = Done t \<and>
      (\<exists>p. cell (mat t) k k = Some p \<and> \<bar>p\<bar> < ZERO_LIMIT))"
  unfolding forward_def for_loop_Thrown_iff forward_k_Singular_iff by auto

lemma normalize_Singular_iff:
  "normalize nsize bound f = Thrown SingularMatrix t \<longleftrightarrow>
   (\<exists>i<bound. normalize nsize i f = Done t \<and>
      (\<exists>p. cell (mat t) i i = Some p \<and> \<bar>p\<bar> < ZERO_LIMIT))"
  unfolding normalize_def for_loop_Thrown_iff normalize_i_Singular_iff by auto

lemma inverse_init_not_singular: "inverse_init nsize f \<noteq> Thrown SingularMatrix t"
  using inverse_init_obeys [of f "this f" nsize] by (rule obeys_oob_not_singular) simp

lemma backward_not_singular: "backward nsize f \<noteq> Thrown SingularMatrix t"
  using backward_obeys [of f "this f" nsize] by (rule obeys_oob_not_singular) simp

lemma inverse_run_at_row:
  "nrows m = ncols m \<Longrightarrow> inverse_run m = and_then (at_row m (nrows m)) (backward (nrows m))"
  by (simp add: inverse_run_def at_row_def at_pivot_def Let_def and_then_assoc)

lemma at_pivot_Singular_iff:
  "at_pivot m bound = Thrown SingularMatrix t \<longleftrightarrow>
   (\<exists>k<bound. at_pivot m k = Done t \<and> (\<exists>p. cell (mat t) k k = Some p \<and> \<bar>p\<bar> < ZERO_LIMIT))"
  unfolding at_pivot_def and_then_Thrown_iff and_then_Done_iff forward_Singular_iff
  using inverse_init_not_singular by blast

lemma at_row_Singular_iff:
  "at_row m bound = Thrown SingularMatrix t \<longleftrightarrow>
   (\<exists>k<size_sub (nrows m) 1. at_pivot m k = Done t \<and>
      (\<exists>p. cell (mat t) k k = Some p \<and> \<bar>p\<bar> < ZERO_LIMIT)) \<or>
   (\<exists>i<bound. at_row m i = Done t \<and> (\<exists>p. cell (mat t) i i = Some p \<and> \<bar>p\<bar> < ZERO_LIMIT))"
  unfolding at_row_def and_then_Thrown_iff and_then_Done_iff normalize_Singular_iff
    at_pivot_Singular_iff
  by blast

lemma inverse_Singular_iff:
  assumes "nrows m = ncols m"
  shows "inverse m = Inl SingularMatrix \<longleftrightarrow>
   (\<exists>k<size_sub (nrows m) 1. \<exists>f p. at_pivot m k = Done f \<and>
       cell (mat f) k k = Some p \<and> \<bar>p\<bar> < ZERO_LIMIT) \<or>
   (\<exists>i<nrows m. \<exists>f p. at_row m i = Done f \<and>
       cell (mat f) i i = Some p \<and> \<bar>p\<bar> < ZERO_LIMIT)"
proof -
  have "inverse m = Inl SingularMatrix \<longleftrightarrow>
        (\<exists>t. and_then (at_row m (nrows m)) (backward (nrows m)) = Thrown SingularMatrix t)"
    by (simp add: inverse_def result_of_Inl_iff inverse_run_at_row [OF assms])
  also have "\<dots> \<longleftrightarrow> (\<exists>t. at_row m (nrows m) = Thrown SingularMatrix t)"
    using backward_not_singular by (auto simp: and_then_Thrown_iff)
  also have "\<dots> \<longleftrightarrow> (\<exists>k<size_sub (nrows m) 1. \<exists>f p. at_pivot m k = Done f \<and>
       cell (mat f) k k = Some p \<and> \<bar>p\<bar> < ZERO_LIMIT) \<or>
   (\<exists>i<nrows m. \<exists>f p. at_row m i = Done f \<and>
       cell (mat f) i i = Some p \<and> \<bar>p\<bar> < ZERO_LIMIT)"
    unfolding at_row_Singular_iff by blast
  finally show ?thesis .
qed

lemma size_sub_1:
  assumes "0 < n" "n < 2 ^ 64"
  shows "size_sub n 1 = n - 1"
proof -
  from assms(1) obtain k where k: "n = Suc k" by (cases n) auto
  have "size_sub n 1 = (k + 2 ^ 64) mod 2 ^ 64" by (simp add: size_sub_def k)
  also have "\<dots> = k" using assms(2) k by simp
  finally show ?thesis by (simp add: k)
qed

lemma wf_empty: "wf m \<Longrightarrow> nrows m = 0 \<Longrightarrow> ncols m = 0 \<Longrightarrow> m = \<lparr>rows = [], nrows = 0, ncols = 0\<rparr>"
  by (cases m) (simp add: wf_def)

lemma inverse_empty: "inverse \<lparr>rows = [], nrows = 0, ncols = 0\<rparr> = Inl OutOfBounds"
  by (simp add: inverse_defs)

lemma inverse_Singular_wf:
  assumes "wf m" "nrows m = ncols m"
  shows "inverse m = Inl SingularMatrix \<longleftrightarrow>
   (\<exists>k f p. k + 1 < nrows m \<and> at_pivot m k = Done f \<and>
       cell (mat f) k k = Some p \<and> \<bar>p\<bar> < ZERO_LIMIT) \<or>
   (\<exists>i f p. i < nrows m \<and> at_row m i = Done f \<and>
       cell (mat f) i i = Some p \<and> \<bar>p\<bar> < ZERO_LIMIT)"
proof (cases "nrows m = 0")
  case True
  with assms have "m = \<lparr>rows = [], nrows = 0, ncols = 0\<rparr>" by (simp add: wf_empty)
  then have "inverse m = Inl OutOfBounds" by (simp add: inverse_empty)
  then show ?thesis using True by simp
next
  case False
  then have "size_sub (nrows m) 1 = nrows m - 1"
    using assms(1) by (intro size_sub_1) (simp_all add: wf_def)
  moreover have "\<And>k. k < nrows m - 1 \<longleftrightarrow> k + 1 < nrows m" by auto
  ultimately show ?thesis
    unfolding inverse_Singular_iff [OF assms(2)] by auto
qed

section \<open>The flat row-major form\<close>

lemma to_size_small: "k < 2 ^ 64 \<Longrightarrow> to_size (int k) = k"
proof -
  assume k: "k < 2 ^ 64"
  have "int k mod 2 ^ 64 = int (k mod 2 ^ 64)" by (simp add: zmod_int)
  then show ?thesis using k by (simp add: to_size_def)
qed

lemma to_int_small: "x < 2 ^ 31 \<Longrightarrow> to_int x = int x"
proof -
  assume x: "x < 2 ^ 31"
  then have "x mod 2 ^ 32 = x" by simp
  then show ?thesis using x by (simp add: to_int_def Let_def)
qed

lemma advance_small: "k + n < 2 ^ 31 \<Longrightarrow> advance (int k) n = int (k + n)"
proof -
  assume b: "k + n < 2 ^ 31"
  then have k: "k < 2 ^ 64" and s: "k + n < 2 ^ 64" by simp_all
  have "size_add (to_size (int k)) n = k + n"
    using s by (simp add: size_add_def to_size_small [OF k])
  then show ?thesis using b by (simp add: advance_def to_int_small)
qed

lemma advance_wrap: "advance 0 (2 ^ 31) = - (2 ^ 31)"
  by (simp add: advance_def to_size_def size_add_def to_int_def)

lemma to_size_wrapped: "to_size (- (2 ^ 31)) = 2 ^ 64 - 2 ^ 31"
  by (simp add: to_size_def)

lemma size_mul_small: "a * b < 2 ^ 64 \<Longrightarrow> size_mul a b = a * b"
  by (simp add: size_mul_def)

lemma malloc_doubles_small: "n < 2 ^ 61 \<Longrightarrow> malloc_doubles g n = map g [0..<n]"
proof -
  assume "n < 2 ^ 61"
  then have "n * 8 < 2 ^ 64" by simp
  then show ?thesis by (simp add: malloc_doubles_def size_mul_def)
qed

lemma length_concat_uniform: "uniform c xss \<Longrightarrow> length (concat xss) = length xss * c"
  by (induction xss) (simp_all add: uniform_def)

lemma uniform_take: "uniform c xss \<Longrightarrow> uniform c (take i xss)"
  by (auto simp: uniform_def list_all_iff dest: in_set_takeD)

lemma uniform_nth: "uniform c xss \<Longrightarrow> i < length xss \<Longrightarrow> length (xss ! i) = c"
  by (simp add: uniform_def list_all_length)

lemma wf_uniform: "wf m \<Longrightarrow> uniform (ncols m) (rows m)"
  by (simp add: wf_def uniform_def)

lemma slice_concat_uniform:
  "uniform c xss \<Longrightarrow> a < length xss \<Longrightarrow> take c (drop (a * c) (concat xss)) = xss ! a"
proof (induction xss arbitrary: a)
  case Nil
  then show ?case by simp
next
  case (Cons x xss)
  then have x: "length x = c" and u: "uniform c xss" by (simp_all add: uniform_def)
  show ?case
  proof (cases a)
    case 0
    then show ?thesis using x by simp
  next
    case (Suc a')
    then have "a' < length xss" using Cons.prems(2) by simp
    from Cons.IH [OF u this] show ?thesis using Suc x by simp
  qed
qed

lemma nth_concat_uniform:
  assumes "uniform c xss" "i < length xss" "j < c"
  shows "concat xss ! (i * c + j) = xss ! i ! j"
proof -
  have "(i + 1) * c \<le> length xss * c" using assms(2) by (intro mult_le_mono1) simp
  then have le: "i * c + c \<le> length (concat xss)"
    using assms(1) by (simp add: length_concat_uniform)
  have "xss ! i ! j = take c (drop (i * c) (concat xss)) ! j"
    using assms by (simp add: slice_concat_uniform)
  also have "\<dots> = concat xss ! (i * c + j)"
    using assms(3) le by simp
  finally show ?thesis by simp
qed

lemma copy_in_Some:
  "k + length row \<le> length buf \<Longrightarrow>
   copy_in row (int k) buf = Some (take k buf @ row @ drop (k + length row) buf)"
  by (simp add: copy_in_def)

lemma copy_out_Some:
  "k + n \<le> length buf \<Longrightarrow> copy_out buf (int k) n = Some (take n (drop k buf))"
  by (simp add: copy_out_def)

lemma to_row_copy_step:
  assumes "wf m" "i < nrows m" "nrows m * ncols m < 2 ^ 31" "to_inv g m i f"
  shows "\<exists>f'. to_row_copy i f = Done f' \<and> to_inv g m (Suc i) f'"
proof -
  let ?c = "ncols m" and ?r = "nrows m"
  let ?init = "map g [0..<?r * ?c]"
  let ?buf = "concat (take i (rows m)) @ drop (i * ?c) ?init"
  from assms(1) have u: "uniform ?c (rows m)" and len: "length (rows m) = ?r"
    by (simp_all add: wf_uniform wf_def)
  have row: "length (rows m ! i) = ?c" using u assms(2) len by (simp add: uniform_nth)
  have pre: "length (concat (take i (rows m))) = i * ?c"
    using length_concat_uniform [OF uniform_take [OF u, of i]] assms(2) len by simp
  have "(i + 1) * ?c \<le> ?r * ?c" using assms(2) by (intro mult_le_mono1) simp
  then have le: "i * ?c + ?c \<le> ?r * ?c" by simp
  then have lbuf: "length ?buf = ?r * ?c" using pre by simp
  have cond: "i * ?c + length (rows m ! i) \<le> length ?buf"
    using le row lbuf by simp
  have tk1: "take (i * ?c) ?buf = concat (take i (rows m))"
    using pre by simp
  have dr1: "drop (i * ?c + length (rows m ! i)) ?buf = drop (Suc i * ?c) ?init"
    using pre row by (simp add: add.commute)
  have tk: "concat (take (Suc i) (rows m)) = concat (take i (rows m)) @ rows m ! i"
    using assms(2) len by (simp add: take_Suc_conv_app_nth)
  have cp: "copy_in (rows m ! i) (int (i * ?c)) ?buf =
            Some (concat (take (Suc i) (rows m)) @ drop (Suc i * ?c) ?init)"
    unfolding copy_in_Some [OF cond] by (simp only: tk1 dr1 tk append_assoc)
  have adv: "advance (int (i * ?c)) (length (rows m ! i)) = int (Suc i * ?c)"
    using le assms(3) row by (subst advance_small) (simp_all add: add.commute)
  from assms(4) have f: "this f = m" "values_copied f = int (i * ?c)" "cm_data (cm f) = ?buf"
    by (simp_all add: to_inv_def)
  let ?f' = "f\<lparr>cm := (cm f)\<lparr>cm_data := concat (take (Suc i) (rows m)) @ drop (Suc i * ?c) ?init\<rparr>,
               values_copied := int (Suc i * ?c)\<rparr>"
  have "to_row_copy i f = Done ?f'"
    unfolding to_row_copy_def by (simp only: f cp adv) (simp add: checked_def)
  moreover have "to_inv g m (Suc i) ?f'"
    using assms(4) by (simp add: to_inv_def)
  ultimately show ?thesis by blast
qed

lemma toContinuousMatrix_run_Done:
  assumes "wf m" "0 < nrows m" "0 < ncols m" "nrows m * ncols m < 2 ^ 31"
  shows "toContinuousMatrix_run g m =
         Done \<lparr>this = m,
               cm = \<lparr>cm_nrows = nrows m, cm_ncols = ncols m, cm_length = nrows m * ncols m,
                     cm_data = concat (rows m)\<rparr>,
               values_copied = int (nrows m * ncols m)\<rparr>"
proof -
  let ?f = "\<lparr>this = m,
          cm = \<lparr>cm_nrows = nrows m, cm_ncols = ncols m, cm_length = nrows m * ncols m,
                cm_data = map g [0..<nrows m * ncols m]\<rparr>,
          values_copied = 0\<rparr>"
  from assms(1) have len: "length (rows m) = nrows m" by (simp add: wf_def)
  from assms(4) have b: "nrows m * ncols m < 2 ^ 64" "nrows m * ncols m < 2 ^ 61" by simp_all
  have mul: "size_mul (nrows m) (ncols m) = nrows m * ncols m"
    using b(1) by (rule size_mul_small)
  have buf: "malloc_doubles g (nrows m * ncols m) = map g [0..<nrows m * ncols m]"
    using b(2) by (rule malloc_doubles_small)
  have "case for_loop 0 (nrows m) to_row_copy ?f of
          Done t \<Rightarrow> to_inv g m (max 0 (nrows m)) t | Thrown e t \<Rightarrow> False"
  proof (rule for_loop_rule [where P = "to_inv g m" and Q = "\<lambda>e t. False"])
    show "to_inv g m 0 ?f" by (simp add: to_inv_def)
  next
    fix i t assume "i < nrows m" "to_inv g m i t"
    with to_row_copy_step [OF assms(1) _ assms(4)] obtain f' where
      "to_row_copy i t = Done f'" "to_inv g m (Suc i) f'" by blast
    then show "case to_row_copy i t of Done t' \<Rightarrow> to_inv g m (Suc i) t' | Thrown e t' \<Rightarrow> False"
      by simp
  qed
  then obtain t where t: "for_loop 0 (nrows m) to_row_copy ?f = Done t" "to_inv g m (nrows m) t"
    by (auto split: outcome.splits)
  from t(2) len have "t = \<lparr>this = m,
               cm = \<lparr>cm_nrows = nrows m, cm_ncols = ncols m, cm_length = nrows m * ncols m,
                     cm_data = concat (rows m)\<rparr>,
               values_copied = int (nrows m * ncols m)\<rparr>"
    by (simp add: to_inv_def)
  moreover have "to_size (int (nrows m) * int (ncols m)) = nrows m * ncols m"
    using to_size_small [OF b(1)] by simp
  ultimately show ?thesis using t(1) assms(2,3) len
    by (simp add: toContinuousMatrix_run_def Let_def and_then_def mul buf)
qed

lemma from_row_copy_step:
  assumes "i < cm_nrows c" "(i + 1) * cm_ncols c \<le> length (cm_data c)"
    "(i + 1) * cm_ncols c < 2 ^ 31" "from_inv c i f"
  shows "\<exists>f'. from_row_copy i f = Done f' \<and> from_inv c (Suc i) f'"
proof -
  let ?n = "cm_ncols c"
  let ?r = "take ?n (drop (i * ?n) (cm_data c))"
  from assms(4) have f: "cm f = c" "values_copied f = int (i * ?n)"
    "has_shape (this f) (cm_nrows c) ?n" by (simp_all add: from_inv_def)
  have row: "length (rows (this f) ! i) = ?n" "length (rows (this f)) = cm_nrows c"
    using f(3) assms(1) by (simp_all add: has_shape_def)
  have out: "copy_out (cm_data c) (int (i * ?n)) ?n = Some ?r"
    using assms(2) by (intro copy_out_Some) simp
  have adv: "advance (int (i * ?n)) ?n = int (Suc i * ?n)"
    using assms(3) by (subst advance_small) (simp_all add: add.commute)
  let ?f' = "f\<lparr>this := (this f)\<lparr>rows := (rows (this f))[i := ?r]\<rparr>,
              values_copied := int (Suc i * ?n)\<rparr>"
  have "from_row_copy i f = Done ?f'"
    unfolding from_row_copy_def by (simp only: f row out adv) (simp add: checked_def)
  moreover have "from_inv c (Suc i) ?f'"
    using assms(1,2,4) row
    by (auto simp: from_inv_def has_shape_def nth_list_update less_Suc_eq)
  ultimately show ?thesis by blast
qed

lemma fromContinuousMatrix_run_Done:
  assumes "0 < cm_nrows c" "0 < cm_ncols c" "cm_nrows c * cm_ncols c \<le> length (cm_data c)"
    "cm_nrows c * cm_ncols c < 2 ^ 31"
  shows "\<exists>f. fromContinuousMatrix_run x c = Done f \<and> from_inv c (cm_nrows c) f"
proof -
  let ?f = "\<lparr>this = resize x (cm_nrows c) (cm_ncols c), cm = c, values_copied = 0\<rparr>"
  have len: "length (rows (resize x (cm_nrows c) (cm_ncols c))) = cm_nrows c"
    by (simp add: resize_def length_vresize)
  have "case for_loop 0 (cm_nrows c) from_row_copy ?f of
          Done t \<Rightarrow> from_inv c (max 0 (cm_nrows c)) t | Thrown e t \<Rightarrow> False"
  proof (rule for_loop_rule [where P = "from_inv c" and Q = "\<lambda>e t. False"])
    show "from_inv c 0 ?f" by (simp add: from_inv_def has_shape_resize) (simp add: resize_def)
  next
    fix i t assume i: "i < cm_nrows c" and t: "from_inv c i t"
    have le: "(i + 1) * cm_ncols c \<le> cm_nrows c * cm_ncols c"
      using i by (intro mult_le_mono1) simp
    then have 1: "(i + 1) * cm_ncols c \<le> length (cm_data c)" using assms(3) by simp
    from le have 2: "(i + 1) * cm_ncols c < 2 ^ 31" using assms(4) by simp
    from from_row_copy_step [OF i 1 2 t] obtain f' where
      "from_row_copy i t = Done f'" "from_inv c (Suc i) f'" by blast
    then show "case from_row_copy i t of Done t' \<Rightarrow> from_inv c (Suc i) t' | Thrown e t' \<Rightarrow> False"
      by simp
  qed
  then show ?thesis using assms(1,2) len
    by (auto simp: fromContinuousMatrix_run_def Let_def split: outcome.splits)
qed

lemma from_to_round_trip:
  assumes "wf m" "0 < nrows m" "0 < ncols m" "nrows m * ncols m < 2 ^ 31"
  shows "fromContinuousMatrix x
           \<lparr>cm_nrows = nrows m, cm_ncols = ncols m, cm_length = nrows m * ncols m,
            cm_data = concat (rows m)\<rparr> = Inr m"
proof -
  let ?c = "\<lparr>cm_nrows = nrows m, cm_ncols = ncols m, cm_length = nrows m * ncols m,
            cm_data = concat (rows m)\<rparr>"
  from assms(1) have u: "uniform (ncols m) (rows m)" and len: "length (rows m) = nrows m"
    and sh: "has_shape m (nrows m) (ncols m)"
    by (simp_all add: wf_uniform wf_def wf_has_shape)
  have "cm_nrows ?c * cm_ncols ?c \<le> length (cm_data ?c)"
    using length_concat_uniform [OF u] len by simp
  from fromContinuousMatrix_run_Done [of ?c x, OF _ _ this] assms(2,3,4) obtain f where
    f: "fromContinuousMatrix_run x ?c = Done f" "from_inv ?c (nrows m) f" by auto
  have "this f = m"
  proof (rule Matrix_eqI [of _ "nrows m" "ncols m"])
    show "has_shape (this f) (nrows m) (ncols m)" "has_shape m (nrows m) (ncols m)"
      "nrows (this f) = nrows m" "ncols (this f) = ncols m"
      using f(2) sh by (simp_all add: from_inv_def)
  next
    fix i j assume i: "i < nrows m" and "j < ncols m"
    from f(2) i have "rows (this f) ! i = take (ncols m) (drop (i * ncols m) (concat (rows m)))"
      by (simp add: from_inv_def)
    also have "\<dots> = rows m ! i" using u i len by (simp add: slice_concat_uniform)
    finally show "rows (this f) ! i ! j = rows m ! i ! j" by simp
  qed
  with f(1) show ?thesis by (simp add: fromContinuousMatrix_def result_of_def)
qed

lemma toContinuousMatrix_empty:
  "nrows m = 0 \<or> ncols m = 0 \<Longrightarrow> toContinuousMatrix g m = Inl MalformedInput"
  by (auto simp: toContinuousMatrix_def toContinuousMatrix_run_def result_of_def Let_def)

lemma flat_round_trip_small:
  assumes "wf m" "0 < nrows m" "0 < ncols m" "nrows m * ncols m < 2 ^ 31"
  shows "\<exists>c. toContinuousMatrix garbage m = Inr c \<and>
            cm_nrows c = nrows m \<and> cm_ncols c = ncols m \<and>
            cm_length c = nrows m * ncols m \<and> length (cm_data c) = nrows m * ncols m \<and>
            (\<forall>i<nrows m. \<forall>j<ncols m. cm_data c ! (i * ncols m + j) = rows m ! i ! j) \<and>
            fromContinuousMatrix x c = Inr m"
proof -
  from assms(1) have u: "uniform (ncols m) (rows m)" and len: "length (rows m) = nrows m"
    by (simp_all add: wf_uniform wf_def)
  let ?c = "\<lparr>cm_nrows = nrows m, cm_ncols = ncols m, cm_length = nrows m * ncols m,
            cm_data = concat (rows m)\<rparr>"
  have "toContinuousMatrix garbage m = Inr ?c"
    using assms by (simp add: toContinuousMatrix_def toContinuousMatrix_run_Done result_of_def)
  moreover have "length (cm_data ?c) = nrows m * ncols m"
    using length_concat_uniform [OF u] len by simp
  moreover have "\<forall>i<nrows m. \<forall>j<ncols m. cm_data ?c ! (i * ncols m + j) = rows m ! i ! j"
    using u len by (simp add: nth_concat_uniform)
  moreover have "fromContinuousMatrix x ?c = Inr m"
    using assms by (simp add: from_to_round_trip)
  ultimately show ?thesis by (intro exI [of _ ?c]) simp
qed

lemma one_long_row:
  assumes "length r = 2 ^ 31"
  shows "toContinuousMatrix_run garbage \<lparr>rows = [r], nrows = 1, ncols = 2 ^ 31\<rparr> =
         Thrown MalformedInput
           \<lparr>this = \<lparr>rows = [r], nrows = 1, ncols = 2 ^ 31\<rparr>,
            cm = \<lparr>cm_nrows = 1, cm_ncols = 2 ^ 31, cm_length = 2 ^ 31, cm_data = r\<rparr>,
            values_copied = - (2 ^ 31)\<rparr>"
proof -
  define buf where "buf = malloc_doubles garbage (2 ^ 31)"
  have "malloc_doubles garbage (2 ^ 31) = map garbage [0..<2 ^ 31]"
    by (rule malloc_doubles_small) simp
  then have lbuf: "length buf = 2 ^ 31"
    unfolding buf_def by (simp only: length_map length_upt)
  let ?m = "\<lparr>rows = [r], nrows = 1, ncols = 2 ^ 31\<rparr>"
  let ?c = "\<lparr>cm_nrows = 1, cm_ncols = 2 ^ 31, cm_length = 2 ^ 31, cm_data = buf\<rparr>"
  let ?f = "\<lparr>this = ?m, cm = ?c, values_copied = 0\<rparr>"
  have mul: "size_mul 1 (2 ^ 31) = 2 ^ 31" by (simp add: size_mul_def)
  have cp: "copy_in r 0 buf = Some r"
    using assms lbuf by (simp add: copy_in_def)
  have row: "to_row_copy 0 ?f =
      Done \<lparr>this = ?m, cm = \<lparr>cm_nrows = 1, cm_ncols = 2 ^ 31, cm_length = 2 ^ 31, cm_data = r\<rparr>,
            values_copied = - (2 ^ 31)\<rparr>"
    using cp assms advance_wrap by (simp add: to_row_copy_def checked_def)
  have loop: "for_loop 0 1 to_row_copy ?f =
      Done \<lparr>this = ?m, cm = \<lparr>cm_nrows = 1, cm_ncols = 2 ^ 31, cm_length = 2 ^ 31, cm_data = r\<rparr>,
            values_copied = - (2 ^ 31)\<rparr>"
    using row by (simp add: for_loop.simps)
  have ne: "to_size (- (2 ^ 31)) \<noteq> 2 ^ 31" by (simp add: to_size_def)
  show ?thesis
    unfolding toContinuousMatrix_run_def Let_def
    using loop ne mul buf_def by (simp add: and_then_def)
qed

lemmas flat_defs = toContinuousMatrix_def toContinuousMatrix_run_def to_row_copy_def copy_in_def
  fromContinuousMatrix_def fromContinuousMatrix_run_def from_row_copy_def copy_out_def
  malloc_doubles_def size_mul_def size_add_def to_size_def to_int_def advance_def
  Matrix0_def resize_def vresize_def checked_def and_then_def result_of_def for_loop.simps
  Let_def replicate_num

lemma flat_round_trip_example:
  "toContinuousMatrix (\<lambda>k. 9) \<lparr>rows = [[1, 2, 3], [4, 5, 6]], nrows = 2, ncols = 3\<rparr> =
     Inr \<lparr>cm_nrows = 2, cm_ncols = 3, cm_length = 6, cm_data = [1, 2, 3, 4, 5, 6]\<rparr> \<and>
   fromContinuousMatrix Matrix0
     \<lparr>cm_nrows = 2, cm_ncols = 3, cm_length = 6, cm_data = [1, 2, 3, 4, 5, 6]\<rparr> =
     Inr \<lparr>rows = [[1, 2, 3], [4, 5, 6]], nrows = 2, ncols = 3\<rparr>"
  by (simp add: flat_defs)

section \<open>Claims\<close>

text \<open>
  C1: on the \<open>2 \<times> 2\<close> matrix \<open>[[4,7],[2,6]]\<close> the call \<open>inverse()\<close> returns
  \<open>[[0.6,-0.7],[-0.2,0.4]]\<close>, exactly so in real arithmetic. The three phases are traced:
  forward elimination leaves \<open>[[4,7],[0,5/2]]\<close> beside \<open>[[1,0],[-1/2,1]]\<close>,
  normalization \<open>[[1,7/4],[0,1]]\<close> beside \<open>[[1/4,0],[-1/5,2/5]]\<close>, and backward
  elimination the inverse.
\<close>

theorem inverse_example_4726:
  "and_then (inverse_init 2 \<lparr>this = \<lparr>rows = [[4, 7], [2, 6]], nrows = 2, ncols = 2\<rparr>,
                              mat_inv = Matrix0, mat = Matrix0\<rparr>)
     (forward 2 (size_sub 2 1)) =
   Done \<lparr>this = \<lparr>rows = [[4, 7], [2, 6]], nrows = 2, ncols = 2\<rparr>,
         mat_inv = \<lparr>rows = [[1, 0], [- 1 / 2, 1]], nrows = 2, ncols = 2\<rparr>,
         mat = \<lparr>rows = [[4, 7], [0, 5 / 2]], nrows = 2, ncols = 2\<rparr>\<rparr> \<and>
   normalize 2 2
     \<lparr>this = \<lparr>rows = [[4, 7], [2, 6]], nrows = 2, ncols = 2\<rparr>,
      mat_inv = \<lparr>rows = [[1, 0], [- 1 / 2, 1]], nrows = 2, ncols = 2\<rparr>,
      mat = \<lparr>rows = [[4, 7], [0, 5 / 2]], nrows = 2, ncols = 2\<rparr>\<rparr> =
   Done \<lparr>this = \<lparr>rows = [[4, 7], [2, 6]], nrows = 2, ncols = 2\<rparr>,
         mat_inv = \<lparr>rows = [[1 / 4, 0], [- 1 / 5, 2 / 5]], nrows = 2, ncols = 2\<rparr>,
         mat = \<lparr>rows = [[1, 7 / 4], [0, 1]], nrows = 2, ncols = 2\<rparr>\<rparr> \<and>
   result_of mat_inv (backward 2
     \<lparr>this = \<lparr>rows = [[4, 7], [2, 6]], nrows = 2, ncols = 2\<rparr>,
      mat_inv = \<lparr>rows = [[1 / 4, 0], [- 1 / 5, 2 / 5]], nrows = 2, ncols = 2\<rparr>,
      mat = \<lparr>rows = [[1, 7 / 4], [0, 1]], nrows = 2, ncols = 2\<rparr>\<rparr>) =
   Inr \<lparr>rows = [[6 / 10, - 7 / 10], [- 2 / 10, 4 / 10]], nrows = 2, ncols = 2\<rparr> \<and>
   inverse \<lparr>rows = [[4, 7], [2, 6]], nrows = 2, ncols = 2\<rparr> =
   Inr \<lparr>rows = [[6 / 10, - 7 / 10], [- 2 / 10, 4 / 10]], nrows = 2, ncols = 2\<rparr>"
  by (simp add: inverse_defs)

text \<open>
  C2: on a square matrix (class invariant holding) \<open>inverse()\<close> throws the singular-matrix
  error exactly when a pivot of the working copy is below \<open>1e-9\<close> in magnitude at the
  moment its check runs: in forward elimination at some pivot index \<open>k\<close> in \<open>[0, n-2]\<close>
  (\<open>at_pivot m k\<close> is the frame when the forward loop reaches \<open>k\<close>), or in normalization
  at some row \<open>i\<close> (\<open>at_row m i\<close> is the frame when the normalization loop reaches \<open>i\<close>).
  On \<open>[[1,2],[2,4]]\<close> the working copy is \<open>[[1,2],[0,0]]\<close> when normalization reaches
  row 1, and the call throws the singular-matrix error.
\<close>

theorem singular_exactly:
  "(wf m \<and> nrows m = ncols m \<longrightarrow>
      (inverse m = Inl SingularMatrix \<longleftrightarrow>
         (\<exists>k f p. k + 1 < nrows m \<and> at_pivot m k = Done f \<and>
            cell (mat f) k k = Some p \<and> \<bar>p\<bar> < ZERO_LIMIT) \<or>
         (\<exists>i f p. i < nrows m \<and> at_row m i = Done f \<and>
            cell (mat f) i i = Some p \<and> \<bar>p\<bar> < ZERO_LIMIT))) \<and>
   ZERO_LIMIT = 1 / 10 ^ 9 \<and>
   at_row \<lparr>rows = [[1, 2], [2, 4]], nrows = 2, ncols = 2\<rparr> 1 =
     Done \<lparr>this = \<lparr>rows = [[1, 2], [2, 4]], nrows = 2, ncols = 2\<rparr>,
           mat_inv = \<lparr>rows = [[1, 0], [- 2, 1]], nrows = 2, ncols = 2\<rparr>,
           mat = \<lparr>rows = [[1, 2], [0, 0]], nrows = 2, ncols = 2\<rparr>\<rparr> \<and>
   inverse \<lparr>rows = [[1, 2], [2, 4]], nrows = 2, ncols = 2\<rparr> = Inl SingularMatrix"
proof -
  have "at_row \<lparr>rows = [[1, 2], [2, 4]], nrows = 2, ncols = 2\<rparr> 1 =
     Done \<lparr>this = \<lparr>rows = [[1, 2], [2, 4]], nrows = 2, ncols = 2\<rparr>,
           mat_inv = \<lparr>rows = [[1, 0], [- 2, 1]], nrows = 2, ncols = 2\<rparr>,
           mat = \<lparr>rows = [[1, 2], [0, 0]], nrows = 2, ncols = 2\<rparr>\<rparr>"
    by (simp add: at_row_def at_pivot_def inverse_defs)
  moreover have "inverse \<lparr>rows = [[1, 2], [2, 4]], nrows = 2, ncols = 2\<rparr> = Inl SingularMatrix"
    by (simp add: inverse_defs)
  ultimately show ?thesis
    using inverse_Singular_wf [of m] by (simp add: ZERO_LIMIT_def)
qed

theorem singular_exactly_witness:
  "wf \<lparr>rows = [[1, 2], [2, 4]], nrows = 2, ncols = 2\<rparr> \<and>
   inverse \<lparr>rows = [[1, 2], [2, 4]], nrows = 2, ncols = 2\<rparr> = Inl SingularMatrix \<and>
   ((\<exists>k f p. k + 1 < 2 \<and>
       at_pivot \<lparr>rows = [[1, 2], [2, 4]], nrows = 2, ncols = 2\<rparr> k = Done f \<and>
       cell (mat f) k k = Some p \<and> \<bar>p\<bar> < ZERO_LIMIT) \<or>
    (\<exists>i f p. i < 2 \<and>
       at_row \<lparr>rows = [[1, 2], [2, 4]], nrows = 2, ncols = 2\<rparr> i = Done f \<and>
       cell (mat f) i i = Some p \<and> \<bar>p\<bar> < ZERO_LIMIT))"
proof -
  have w: "wf \<lparr>rows = [[1, 2], [2, 4]], nrows = 2, ncols = 2\<rparr>"
    by (simp add: wf_def)
  note inst = singular_exactly [of "\<lparr>rows = [[1, 2], [2, 4]], nrows = 2, ncols = 2\<rparr>"]
  from inst have s: "inverse \<lparr>rows = [[1, 2], [2, 4]], nrows = 2, ncols = 2\<rparr> = Inl SingularMatrix"
    by (elim conjE)
  from inst have "wf \<lparr>rows = [[1, 2], [2, 4]], nrows = 2, ncols = 2\<rparr> \<and>
      nrows \<lparr>rows = [[1, 2], [2, 4]], nrows = 2, ncols = 2\<rparr> =
      ncols \<lparr>rows = [[1, 2], [2, 4]], nrows = 2, ncols = 2\<rparr> \<longrightarrow>
      (inverse \<lparr>rows = [[1, 2], [2, 4]], nrows = 2, ncols = 2\<rparr> = Inl SingularMatrix \<longleftrightarrow>
         (\<exists>k f p. k + 1 < nrows \<lparr>rows = [[1, 2], [2, 4]], nrows = 2, ncols = 2\<rparr> \<and>
            at_pivot \<lparr>rows = [[1, 2], [2, 4]], nrows = 2, ncols = 2\<rparr> k = Done f \<and>
            cell (mat f) k k = Some p \<and> \<bar>p\<bar> < ZERO_LIMIT) \<or>
         (\<exists>i f p. i < nrows \<lparr>rows = [[1, 2], [2, 4]], nrows = 2, ncols = 2\<rparr> \<and>
            at_row \<lparr>rows = [[1, 2], [2, 4]], nrows = 2, ncols = 2\<rparr> i = Done f \<and>
            cell (mat f) i i = Some p \<and> \<bar>p\<bar> < ZERO_LIMIT))"
    by (elim conjE)
  with w s have "(\<exists>k f p. k + 1 < nrows \<lparr>rows = [[1, 2], [2, 4]], nrows = 2, ncols = 2\<rparr> \<and>
            at_pivot \<lparr>rows = [[1, 2], [2, 4]], nrows = 2, ncols = 2\<rparr> k = Done f \<and>
            cell (mat f) k k = Some p \<and> \<bar>p\<bar> < ZERO_LIMIT) \<or>
         (\<exists>i f p. i < nrows \<lparr>rows = [[1, 2], [2, 4]], nrows = 2, ncols = 2\<rparr> \<and>
            at_row \<lparr>rows = [[1, 2], [2, 4]], nrows = 2, ncols = 2\<rparr> i = Done f \<and>
            cell (mat f) i i = Some p \<and> \<bar>p\<bar> < ZERO_LIMIT)"
    by simp
  then have "(\<exists>k f p. k + 1 < 2 \<and>
       at_pivot \<lparr>rows = [[1, 2], [2, 4]], nrows = 2, ncols = 2\<rparr> k = Done f \<and>
       cell (mat f) k k = Some p \<and> \<bar>p\<bar> < ZERO_LIMIT) \<or>
    (\<exists>i f p. i < 2 \<and>
       at_row \<lparr>rows = [[1, 2], [2, 4]], nrows = 2, ncols = 2\<rparr> i = Done f \<and>
       cell (mat f) i i = Some p \<and> \<bar>p\<bar> < ZERO_LIMIT)"
    by (simp only: Matrix.simps)
  with w s show ?thesis by (intro conjI)
qed

text \<open>
  C4 (as the code has it): \<open>resize(r, c)\<close> never fails and leaves a matrix of shape
  \<open>r \<times> c\<close>: \<open>r\<close> rows of \<open>c\<close> cells each. A cell that existed before the call keeps its
  value; only the cells that did not exist are zero.
\<close>

theorem resize_keeps_old_cells:
  "nrows (resize m r c) = r \<and> ncols (resize m r c) = c \<and>
   length (rows (resize m r c)) = r \<and>
   (\<forall>i<r. length (rows (resize m r c) ! i) = c \<and>
      (\<forall>j<c. cell (resize m r c) i j =
         Some (if i < length (rows m) \<and> j < length (rows m ! i) then rows m ! i ! j else 0)))"
  by (simp add: resize_def cell_def length_vresize nth_vresize)

theorem resize_keeps_old_cells_witness:
  "cell (resize \<lparr>rows = [[1, 2], [3, 4]], nrows = 2, ncols = 2\<rparr> 3 3) 1 1 = Some 4 \<and>
   cell (resize \<lparr>rows = [[1, 2], [3, 4]], nrows = 2, ncols = 2\<rparr> 3 3) 1 2 = Some 0"
  using resize_keeps_old_cells [of "\<lparr>rows = [[1, 2], [3, 4]], nrows = 2, ncols = 2\<rparr>" 3 3]
  by simp

text \<open>
  C4 as stated fails: resizing the \<open>2 \<times> 2\<close> matrix \<open>[[1,2],[3,4]]\<close> to \<open>2 \<times> 2\<close> leaves the
  cell \<open>[0][0]\<close> at 1, not at zero.
\<close>

theorem resize_not_zeroed_counterexample:
  "cell (resize \<lparr>rows = [[1, 2], [3, 4]], nrows = 2, ncols = 2\<rparr> 2 2) 0 0 = Some 1 \<and>
   cell (resize \<lparr>rows = [[1, 2], [3, 4]], nrows = 2, ncols = 2\<rparr> 2 2) 0 0 \<noteq> Some 0"
  by (simp add: resize_def cell_def vresize_def)

text \<open>
  C5: each shape-checked operation throws the shape error exactly when its shape
  precondition is violated: \<open>operator+\<close> and \<open>operator-\<close> iff the operands differ in
  \<open>nrows\<close> or in \<open>ncols\<close>, \<open>operator*\<close> iff \<open>lhs.ncols \<noteq> rhs.nrows\<close>, \<open>inverse()\<close> iff the
  receiver is not square. Adding a \<open>2 \<times> 3\<close> and a \<open>3 \<times> 2\<close> matrix and multiplying a
  \<open>2 \<times> 3\<close> by a \<open>4 \<times> 2\<close> matrix both throw it.
\<close>

theorem shape_mismatch_exactly:
  "(op_add a b = Inl ShapeMismatch \<longleftrightarrow> \<not> (nrows a = nrows b \<and> ncols a = ncols b)) \<and>
   (op_sub a b = Inl ShapeMismatch \<longleftrightarrow> \<not> (nrows a = nrows b \<and> ncols a = ncols b)) \<and>
   (op_mul a b = Inl ShapeMismatch \<longleftrightarrow> ncols a \<noteq> nrows b) \<and>
   (inverse m = Inl ShapeMismatch \<longleftrightarrow> nrows m \<noteq> ncols m) \<and>
   op_add (Matrix2 2 3) (Matrix2 3 2) = Inl ShapeMismatch \<and>
   op_mul (Matrix2 2 3) (Matrix2 4 2) = Inl ShapeMismatch"
  by (simp add: op_add_ShapeMismatch_iff op_sub_ShapeMismatch_iff op_mul_ShapeMismatch_iff
      inverse_ShapeMismatch_iff) (simp add: Matrix2_def resize_def)




text \<open>
  C7: for every matrix \<open>m\<close> that satisfies the class invariant (any shape, empty ones
  included), \<open>transpose()\<close> returns a matrix \<open>t\<close> of shape \<open>ncols \<times> nrows\<close> whose cell
  \<open>[j][i]\<close> is the cell \<open>[i][j]\<close> of \<open>m\<close>, and transposing \<open>t\<close> gives \<open>m\<close> back exactly.
\<close>

theorem transpose_cells_and_involution:
  assumes "wf m"
  shows "\<exists>t. transpose_m m = Inr t \<and> nrows t = ncols m \<and> ncols t = nrows m \<and> wf t \<and>
           (\<forall>i<nrows m. \<forall>j<ncols m. cell t j i = cell m i j) \<and>
           transpose_m t = Inr m"
proof -
  from assms have sh: "has_shape m (nrows m) (ncols m)" and
    bounds: "nrows m < 2 ^ 64" "ncols m < 2 ^ 64" by (simp_all add: wf_iff)
  from transpose_m_Inr [OF sh] obtain t where t: "transpose_m m = Inr t"
    "nrows t = ncols m" "ncols t = nrows m" "has_shape t (ncols m) (nrows m)"
    "\<forall>i<nrows m. \<forall>j<ncols m. rows t ! j ! i = rows m ! i ! j" by blast
  have wft: "wf t" using t(2-4) bounds by (simp add: wf_iff)
  have sht: "has_shape t (nrows t) (ncols t)" using t(2-4) by simp
  from transpose_m_Inr [OF sht] obtain u where u: "transpose_m t = Inr u"
    "nrows u = ncols t" "ncols u = nrows t" "has_shape u (ncols t) (nrows t)"
    "\<forall>i<nrows t. \<forall>j<ncols t. rows u ! j ! i = rows t ! i ! j" by blast
  have "u = m"
  proof (rule Matrix_eqI [of u "nrows m" "ncols m"])
    show "has_shape u (nrows m) (ncols m)" using u(4) t(2,3) by simp
    show "has_shape m (nrows m) (ncols m)" by (rule sh)
    show "nrows u = nrows m" "ncols u = ncols m" using u(2,3) t(2,3) by simp_all
  next
    fix i j assume "i < nrows m" "j < ncols m"
    then show "rows u ! i ! j = rows m ! i ! j" using u(5) t(2,3,5) by simp
  qed
  moreover have "\<forall>i<nrows m. \<forall>j<ncols m. cell t j i = cell m i j"
    using t(4,5) sh by (simp add: cell_Some [of t "ncols m" "nrows m"] cell_Some [of m "nrows m" "ncols m"])
  ultimately show ?thesis using t(1-3) wft u(1) by simp
qed

theorem transpose_cells_and_involution_witness:
  "wf \<lparr>rows = [[1, 2, 3], [4, 5, 6]], nrows = 2, ncols = 3\<rparr> \<and>
   (\<exists>t. transpose_m \<lparr>rows = [[1, 2, 3], [4, 5, 6]], nrows = 2, ncols = 3\<rparr> = Inr t \<and>
        nrows t = 3 \<and> ncols t = 2 \<and>
        transpose_m t = Inr \<lparr>rows = [[1, 2, 3], [4, 5, 6]], nrows = 2, ncols = 3\<rparr>)"
proof -
  have w: "wf \<lparr>rows = [[1, 2, 3], [4, 5, 6]], nrows = 2, ncols = 3\<rparr>"
    by (simp add: wf_def)
  from transpose_cells_and_involution [OF w] w show ?thesis by auto
qed

text \<open>
  C9: \<open>inverse()\<close>, \<open>transpose()\<close> and the operators \<open>+\<close>, \<open>-\<close>, \<open>*\<close> leave their receiver
  or operands as they were, whether the call returns or throws: in the final frame of
  every call the fields \<open>this\<close>, \<open>lhs\<close> and \<open>rhs\<close> hold the matrices passed in, and what
  is returned is the local matrix built by the call. (Where an index leaves its vector the
  frame is the one before that access.)
\<close>

theorem operands_unchanged:
  "this (state_of (inverse_run m)) = m \<and> inverse m = result_of mat_inv (inverse_run m) \<and>
   this (state_of (transpose_run m)) = m \<and> transpose_m m = result_of mat_t (transpose_run m) \<and>
   lhs (state_of (add_run a b)) = a \<and> rhs (state_of (add_run a b)) = b \<and>
   op_add a b = result_of mat_add (add_run a b) \<and>
   lhs (state_of (minus_run a b)) = a \<and> rhs (state_of (minus_run a b)) = b \<and>
   op_sub a b = result_of mat_minus (minus_run a b) \<and>
   lhs (state_of (mul_run a b)) = a \<and> rhs (state_of (mul_run a b)) = b \<and>
   op_mul a b = result_of mat_mul (mul_run a b)"
  by (simp add: inverse_run_this transpose_run_this add_run_operands minus_run_operands
      mul_run_operands inverse_def transpose_m_def op_add_def op_sub_def op_mul_def)

theorem operands_unchanged_witness:
  "inverse \<lparr>rows = [[1, 2], [2, 4]], nrows = 2, ncols = 2\<rparr> = Inl SingularMatrix \<and>
   this (state_of (inverse_run \<lparr>rows = [[1, 2], [2, 4]], nrows = 2, ncols = 2\<rparr>)) =
     \<lparr>rows = [[1, 2], [2, 4]], nrows = 2, ncols = 2\<rparr> \<and>
   op_add (Matrix2 2 3) (Matrix2 3 2) = Inl ShapeMismatch \<and>
   lhs (state_of (add_run (Matrix2 2 3) (Matrix2 3 2))) = Matrix2 2 3 \<and>
   rhs (state_of (add_run (Matrix2 2 3) (Matrix2 3 2))) = Matrix2 3 2"
proof -
  have "inverse \<lparr>rows = [[1, 2], [2, 4]], nrows = 2, ncols = 2\<rparr> = Inl SingularMatrix"
    by (simp add: inverse_defs)
  moreover have "op_add (Matrix2 2 3) (Matrix2 3 2) = Inl ShapeMismatch"
    by (simp add: op_add_ShapeMismatch_iff Matrix2_def resize_def)
  ultimately show ?thesis
    using operands_unchanged [of "\<lparr>rows = [[1, 2], [2, 4]], nrows = 2, ncols = 2\<rparr>"
        "Matrix2 2 3" "Matrix2 3 2"]
    by simp
qed

text \<open>
  C10: \<open>inverse()\<close> on the empty \<open>0 \<times> 0\<close> matrix passes the square check and builds its
  two empty locals; the bound \<open>nsize - 1\<close> of the forward loop wraps to \<open>2 ^ 64 - 1\<close>, so
  the loop is entered at \<open>k = 0\<close>, and the read of \<open>mat[0][0]\<close> is out of bounds. The call
  returns no matrix and throws neither the shape nor the singular-matrix error.
\<close>

theorem inverse_empty_out_of_bounds:
  "nrows \<lparr>rows = [], nrows = 0, ncols = 0\<rparr> = ncols \<lparr>rows = [], nrows = 0, ncols = 0\<rparr> \<and>
   inverse_init 0 \<lparr>this = \<lparr>rows = [], nrows = 0, ncols = 0\<rparr>, mat_inv = Matrix0, mat = Matrix0\<rparr> =
     Done \<lparr>this = \<lparr>rows = [], nrows = 0, ncols = 0\<rparr>,
           mat_inv = \<lparr>rows = [], nrows = 0, ncols = 0\<rparr>,
           mat = \<lparr>rows = [], nrows = 0, ncols = 0\<rparr>\<rparr> \<and>
   size_sub 0 1 = 2 ^ 64 - 1 \<and> (0::nat) < size_sub 0 1 \<and>
   cell \<lparr>rows = [], nrows = 0, ncols = 0\<rparr> 0 0 = None \<and>
   inverse \<lparr>rows = [], nrows = 0, ncols = 0\<rparr> = Inl OutOfBounds"
  by (simp add: inverse_defs)

text \<open>
  C8 (where the code fails it): the matrix with one row of \<open>2 ^ 31\<close> cells is regular and not
  empty, yet \<open>toContinuousMatrix\<close> throws its second error, "Matrix does not have regular
  shape". The row is copied, then \<open>values_copied += row.size()\<close> wraps the \<open>int\<close> counter to
  \<open>- 2 ^ 31\<close>, and the test \<open>values_copied != cm->length\<close> compares \<open>2 ^ 64 - 2 ^ 31\<close> with
  \<open>2 ^ 31\<close>. (Below \<open>2 ^ 31\<close> cells the round trip holds: \<open>flat_round_trip_small\<close>; an empty
  matrix throws the first error: \<open>toContinuousMatrix_empty\<close>.)
\<close>

theorem flat_form_counter_wraps:
  "wf \<lparr>rows = [replicate (2 ^ 31) 0], nrows = 1, ncols = 2 ^ 31\<rparr> \<and>
   advance 0 (2 ^ 31) = - (2 ^ 31) \<and>
   toContinuousMatrix_run garbage \<lparr>rows = [replicate (2 ^ 31) 0], nrows = 1, ncols = 2 ^ 31\<rparr> =
     Thrown MalformedInput
       \<lparr>this = \<lparr>rows = [replicate (2 ^ 31) 0], nrows = 1, ncols = 2 ^ 31\<rparr>,
        cm = \<lparr>cm_nrows = 1, cm_ncols = 2 ^ 31, cm_length = 2 ^ 31,
              cm_data = replicate (2 ^ 31) 0\<rparr>,
        values_copied = - (2 ^ 31)\<rparr> \<and>
   toContinuousMatrix garbage \<lparr>rows = [replicate (2 ^ 31) 0], nrows = 1, ncols = 2 ^ 31\<rparr> =
     Inl MalformedInput"
proof -
  have w: "wf \<lparr>rows = [replicate (2 ^ 31) 0], nrows = 1, ncols = 2 ^ 31\<rparr>"
    by (simp add: wf_def)
  have l: "length (replicate (2 ^ 31) (0::real)) = 2 ^ 31" by simp
  note run = one_long_row [OF l, of garbage]
  have "toContinuousMatrix garbage \<lparr>rows = [replicate (2 ^ 31) 0], nrows = 1, ncols = 2 ^ 31\<rparr> =
     Inl MalformedInput"
    unfolding toContinuousMatrix_def run by (simp add: result_of_def)
  with w run advance_wrap show ?thesis by (intro conjI)
qed

text \<open>
  C3 (as the code has it): on a square matrix (class invariant holding) whose cells are all
  finite, \<open>checkDominant()\<close> returns true if and only if in every row \<open>i\<close>
  \<open>a[i][i] >= rowAbsSum - |a[i][i]|\<close>, where \<open>rowAbsSum\<close> is the sum of \<open>|a[i][j]|\<close> over
  the row, accumulated from the left in the arithmetic of \<open>double\<close>: with its rounding and
  its overflow to infinity, for every format whose rounding is monotone and keeps the values
  of the format. The method is \<open>const\<close>: a function of the matrix alone. (The test of the
  source is \<open>a[i][i] < sum - a[i][i]\<close>, without the absolute value; on finite cells the two
  agree because a negative diagonal entry fails both.)
\<close>

theorem checkDominant_finite_iff:
  assumes "rounding F" "wf_d m" "nrows_d m = ncols_d m" "list_all (list_all (finite_cell F)) (rows_d m)"
  shows "checkDominant F m = Inr (\<forall>i<nrows_d m. dominant_row F m i)"
  using checkDominant_from_finite [OF assms, of 0] by (simp add: checkDominant_def)

lemmas dominant_defs = checkDominant_def checkDominant_from.simps accumulate_abs_def
  dominant_row_def rowAbsSum_def d_sub_def d_ge_def fl_def small_format_def Let_def

theorem checkDominant_finite_iff_witness:
  "rounding small_format \<and>
   wf_d \<lparr>rows_d = [[Finite 5, Finite 1, Finite 1], [Finite 1, Finite 4, Finite 1],
                [Finite 1, Finite 1, Finite 3]], nrows_d = 3, ncols_d = 3\<rparr> \<and>
   checkDominant small_format
     \<lparr>rows_d = [[Finite 5, Finite 1, Finite 1], [Finite 1, Finite 4, Finite 1],
              [Finite 1, Finite 1, Finite 3]], nrows_d = 3, ncols_d = 3\<rparr> = Inr True \<and>
   checkDominant small_format
     \<lparr>rows_d = [[Finite 5, Finite 1, Finite 1], [Finite 1, Finite 4, Finite 1],
              [Finite 1, Finite 1, Finite 3]], nrows_d = 3, ncols_d = 3\<rparr> =
     Inr (\<forall>i<3. dominant_row small_format
                   \<lparr>rows_d = [[Finite 5, Finite 1, Finite 1], [Finite 1, Finite 4, Finite 1],
                            [Finite 1, Finite 1, Finite 3]], nrows_d = 3, ncols_d = 3\<rparr> i) \<and>
   checkDominant small_format
     \<lparr>rows_d = [[Finite 1, Finite 5, Finite 1], [Finite 1, Finite 4, Finite 1],
              [Finite 1, Finite 1, Finite 3]], nrows_d = 3, ncols_d = 3\<rparr> = Inr False"
proof -
  let ?m = "\<lparr>rows_d = [[Finite 5, Finite 1, Finite 1], [Finite 1, Finite 4, Finite 1],
                [Finite 1, Finite 1, Finite 3]], nrows_d = 3, ncols_d = 3\<rparr>"
  have w: "wf_d ?m" by (simp add: wf_d_def)
  have c: "list_all (list_all (finite_cell small_format)) (rows_d ?m)"
    by (simp add: small_format_def)
  have t: "checkDominant small_format ?m = Inr True"
    by (simp add: dominant_defs)
  have f: "checkDominant small_format
     \<lparr>rows_d = [[Finite 1, Finite 5, Finite 1], [Finite 1, Finite 4, Finite 1],
              [Finite 1, Finite 1, Finite 3]], nrows_d = 3, ncols_d = 3\<rparr> = Inr False"
    by (simp add: dominant_defs)
  from checkDominant_finite_iff [OF rounding_small_format w _ c]
  have "checkDominant small_format ?m = Inr (\<forall>i<3. dominant_row small_format ?m i)"
    by simp
  with rounding_small_format w t f show ?thesis by (intro conjI)
qed

text \<open>
  C3 as stated fails on a matrix with an infinite or NaN diagonal entry: on the \<open>1 \<times> 1\<close>
  matrix \<open>[[+inf]]\<close> the sum is \<open>+inf\<close>, \<open>sum - a[0][0]\<close> is NaN and the test
  \<open>a[0][0] < NaN\<close> is false, so \<open>checkDominant()\<close> returns true, while
  \<open>a[0][0] >= rowAbsSum - |a[0][0]|\<close> is false; the same on \<open>[[NaN]]\<close>. No rounding
  takes part, so the format does not matter (\<open>infinite_diagonal_passes\<close>).
\<close>

theorem checkDominant_infinite_counterexample:
  "wf_d \<lparr>rows_d = [[PlusInf]], nrows_d = 1, ncols_d = 1\<rparr> \<and>
   checkDominant small_format \<lparr>rows_d = [[PlusInf]], nrows_d = 1, ncols_d = 1\<rparr> = Inr True \<and>
   \<not> dominant_row small_format \<lparr>rows_d = [[PlusInf]], nrows_d = 1, ncols_d = 1\<rparr> 0 \<and>
   checkDominant small_format \<lparr>rows_d = [[NaN]], nrows_d = 1, ncols_d = 1\<rparr> = Inr True \<and>
   \<not> dominant_row small_format \<lparr>rows_d = [[NaN]], nrows_d = 1, ncols_d = 1\<rparr> 0"
  by (simp add: dominant_defs wf_d_def)

text \<open>
  Rounding decides: in the small format the row \<open>[33/8, 33/8, 1/8]\<close> accumulates to 8,
  and \<open>8 - 33/8\<close> is not above the diagonal entry, so the matrix passes; the exact sum
  \<open>67/8\<close> would fail it.
\<close>

lemma rounding_decides:
  "checkDominant small_format
     \<lparr>rows_d = [[Finite (33 / 8), Finite (33 / 8), Finite (1 / 8)],
              [Finite 0, Finite 1, Finite 0], [Finite 0, Finite 0, Finite 1]],
      nrows_d = 3, ncols_d = 3\<rparr> = Inr True \<and>
   (33 / 8 :: real) < (33 / 8 + 33 / 8 + 1 / 8) - 33 / 8"
  by (simp add: dominant_defs round_def)

end
